theory Spec2Isabelle
  imports Main "HOL-Library.Word"
begin

unbundle bit_operations_syntax

section \<open>Data model of package lattice\<close>

text \<open>
  \<^verbatim>\<open>type Addr [4]uint64\<close>: four 64-bit words, compared by value. Go's \<^verbatim>\<open>int\<close>
  is modelled as \<open>int\<close>: the code compares coordinates and shifts validated ones by
  less than 20 bits, so no arithmetic of the source can overflow. Loop counters and
  lengths, which are never negative, are \<open>nat\<close>.
\<close>

datatype Addr = Addr (w0: "64 word") (w1: "64 word") (w2: "64 word") (w3: "64 word")

text \<open>
  A panic is either the string handed to \<^verbatim>\<open>panic(fmt.Sprintf(...))\<close>, or the
  run-time error of an index past the end of an array or slice
  (index, length), or of a reslice past the capacity (bound, capacity).
\<close>

datatype panic =
    Panic string
  | IndexOutOfRange nat nat
  | SliceBoundsOutOfRange nat nat

definition BitsPerCoord :: nat where
  "BitsPerCoord = 20"

definition MaxDimensions :: nat where
  "MaxDimensions = 12"

definition MaxCoordValue :: int where
  "MaxCoordValue = push_bit BitsPerCoord 1 - 1"

subsection \<open>Formatting with \<^verbatim>\<open>%d\<close>\<close>

definition digit :: "nat \<Rightarrow> char" where
  "digit d = ''0123456789'' ! d"

fun digits :: "nat \<Rightarrow> string" where
  "digits n = (if n < 10 then [digit n] else digits (n div 10) @ [digit (n mod 10)])"

declare digits.simps [simp del]

definition sprintf_d :: "int \<Rightarrow> string" where
  "sprintf_d v = (if v < 0 then CHR ''-'' # digits (nat (- v)) else digits (nat v))"

definition msg_max_dims :: "nat \<Rightarrow> string" where
  "msg_max_dims m = ''lattice: max '' @ sprintf_d (int m) @ '' dimensions supported''"

definition msg_coord :: "nat \<Rightarrow> int \<Rightarrow> int \<Rightarrow> string" where
  "msg_coord i v m =
     ''lattice: coord['' @ sprintf_d (int i) @ '']='' @ sprintf_d v @
     '' out of range [0,'' @ sprintf_d m @ '']''"

definition msg_buf :: "nat \<Rightarrow> nat \<Rightarrow> string" where
  "msg_buf need got =
     ''lattice: buf too small: need '' @ sprintf_d (int need) @ '', got '' @
     sprintf_d (int got)"

definition msg_dim_index :: "int \<Rightarrow> nat \<Rightarrow> string" where
  "msg_dim_index i dims =
     ''lattice: dimension index '' @ sprintf_d i @ '' out of range [0:'' @
     sprintf_d (int dims) @ '']''"

subsection \<open>Sequencing, loops and checked array accesses\<close>

definition bind_res :: "panic + 'a \<Rightarrow> ('a \<Rightarrow> panic + 'b) \<Rightarrow> panic + 'b" where
  "bind_res m f = (case m of Inl e \<Rightarrow> Inl e | Inr x \<Rightarrow> f x)"

text \<open>\<^verbatim>\<open>for i := range n { body }\<close>: the body runs for 0, 1, ..., n-1 and a panic ends the loop.\<close>

fun for_each :: "nat list \<Rightarrow> (nat \<Rightarrow> 's \<Rightarrow> panic + 's) \<Rightarrow> 's \<Rightarrow> panic + 's" where
  "for_each [] body s = Inr s"
| "for_each (i # rest) body s =
     (case body i s of Inl e \<Rightarrow> Inl e | Inr s' \<Rightarrow> for_each rest body s')"

definition for_range :: "nat \<Rightarrow> (nat \<Rightarrow> 's \<Rightarrow> panic + 's) \<Rightarrow> 's \<Rightarrow> panic + 's" where
  "for_range n body s = for_each [0..<n] body s"

definition array_get :: "'a list \<Rightarrow> nat \<Rightarrow> panic + 'a" where
  "array_get xs i = (if i < length xs then Inr (xs ! i) else Inl (IndexOutOfRange i (length xs)))"

definition array_set :: "'a list \<Rightarrow> nat \<Rightarrow> 'a \<Rightarrow> panic + 'a list" where
  "array_set xs i v = (if i < length xs then Inr (xs[i := v]) else Inl (IndexOutOfRange i (length xs)))"

definition word_get :: "Addr \<Rightarrow> nat \<Rightarrow> panic + 64 word" where
  "word_get a k =
     (if k = 0 then Inr (w0 a) else if k = 1 then Inr (w1 a)
      else if k = 2 then Inr (w2 a) else if k = 3 then Inr (w3 a)
      else Inl (IndexOutOfRange k 4))"

definition word_set :: "Addr \<Rightarrow> nat \<Rightarrow> 64 word \<Rightarrow> panic + Addr" where
  "word_set a k w =
     (if k = 0 then Inr (Addr w (w1 a) (w2 a) (w3 a))
      else if k = 1 then Inr (Addr (w0 a) w (w2 a) (w3 a))
      else if k = 2 then Inr (Addr (w0 a) (w1 a) w (w3 a))
      else if k = 3 then Inr (Addr (w0 a) (w1 a) (w2 a) w)
      else Inl (IndexOutOfRange k 4))"

section \<open>Encoder\<close>

definition encodedBitPos :: "nat \<Rightarrow> nat \<Rightarrow> nat \<Rightarrow> nat" where
  "encodedBitPos bitPos numDims dimIdx = 4 + bitPos * numDims + dimIdx"

text \<open>The validation loop of \<^verbatim>\<open>New\<close>: the first offending element panics.\<close>

fun check_coords :: "nat \<Rightarrow> int list \<Rightarrow> panic option" where
  "check_coords i [] = None"
| "check_coords i (v # vs) =
     (if v < 0 \<or> v > MaxCoordValue then Some (Panic (msg_coord i v MaxCoordValue))
      else check_coords (Suc i) vs)"

text \<open>The body of the inner loop of \<^verbatim>\<open>New\<close>; \<open>dimIdx\<close> ranges below \<open>length coords\<close>.\<close>

definition New_step :: "int list \<Rightarrow> nat \<Rightarrow> nat \<Rightarrow> Addr \<Rightarrow> panic + Addr" where
  "New_step coords bitPos dimIdx addr =
     bind_res (array_get coords dimIdx) (\<lambda>c.
       let b = drop_bit bitPos c AND 1;
           e = encodedBitPos bitPos (length coords) dimIdx
       in if b = 1 then
            (let arrayIdx = e div 64; bitInWord = e mod 64
             in bind_res (word_get addr arrayIdx) (\<lambda>w.
                  word_set addr arrayIdx (w OR push_bit bitInWord 1)))
          else Inr addr)"

definition New :: "int list \<Rightarrow> panic + Addr" where
  "New coords =
     (if length coords > MaxDimensions then Inl (Panic (msg_max_dims MaxDimensions))
      else case check_coords 0 coords of
        Some e \<Rightarrow> Inl e
      | None \<Rightarrow>
          for_range BitsPerCoord
            (\<lambda>bitPos. for_range (length coords) (New_step coords bitPos))
            (Addr (of_nat (length coords)) 0 0 0))"

section \<open>Decoder and accessors\<close>

definition Dims :: "Addr \<Rightarrow> nat" where
  "Dims a = unat (w0 a AND 0xF)"

text \<open>The body of the inner loop of \<^verbatim>\<open>Coords\<close>; the buffer is the \<^verbatim>\<open>[12]int\<close>.\<close>

definition Coords_step :: "Addr \<Rightarrow> nat \<Rightarrow> nat \<Rightarrow> nat \<Rightarrow> int list \<Rightarrow> panic + int list" where
  "Coords_step a dims bitPos dimIdx coords =
     (let e = encodedBitPos bitPos dims dimIdx;
          arrayIdx = e div 64;
          bitInWord = e mod 64
      in bind_res (word_get a arrayIdx) (\<lambda>w.
           if drop_bit bitInWord w AND 1 = 1 then
             bind_res (array_get coords dimIdx) (\<lambda>c.
               array_set coords dimIdx (c OR push_bit bitPos 1))
           else Inr coords))"

definition Coords :: "Addr \<Rightarrow> panic + (int list \<times> nat)" where
  "Coords a =
     (let dims = Dims a
      in bind_res
           (for_range BitsPerCoord
              (\<lambda>bitPos. for_range dims (Coords_step a dims bitPos))
              (replicate MaxDimensions 0))
           (\<lambda>coords. Inr (coords, dims)))"

text \<open>
  A Go slice \<^verbatim>\<open>[]int\<close>: the backing array from the slice's first element on
  (its length is the capacity) and the slice's length.
\<close>

record slice =
  backing :: "int list"
  len :: nat

definition cap :: "slice \<Rightarrow> nat" where
  "cap s = length (backing s)"

definition elems :: "slice \<Rightarrow> int list" where
  "elems s = take (len s) (backing s)"

definition slice_set :: "slice \<Rightarrow> nat \<Rightarrow> int \<Rightarrow> panic + slice" where
  "slice_set s i v =
     (if i < len s then Inr (s\<lparr>backing := (backing s)[i := v]\<rparr>)
      else Inl (IndexOutOfRange i (len s)))"

definition reslice_to :: "slice \<Rightarrow> nat \<Rightarrow> panic + slice" where
  "reslice_to s n =
     (if n \<le> cap s then Inr (s\<lparr>len := n\<rparr>) else Inl (SliceBoundsOutOfRange n (cap s)))"

definition CoordsSlice :: "Addr \<Rightarrow> slice \<Rightarrow> panic + slice" where
  "CoordsSlice a buf =
     bind_res (Coords a) (\<lambda>(coords, dims).
       if len buf < dims then Inl (Panic (msg_buf dims (len buf)))
       else bind_res (reslice_to buf dims) (\<lambda>buf'.
              for_range dims
                (\<lambda>i b. bind_res (array_get coords i) (\<lambda>c. slice_set b i c))
                buf'))"

definition At :: "Addr \<Rightarrow> int \<Rightarrow> panic + int" where
  "At a dimIdx =
     bind_res (Coords a) (\<lambda>(ac, dims).
       if dimIdx < 0 \<or> dimIdx \<ge> int dims then Inl (Panic (msg_dim_index dimIdx dims))
       else array_get ac (nat dimIdx))"

section \<open>Predicates\<close>

definition Equal :: "Addr \<Rightarrow> Addr \<Rightarrow> bool" where
  "Equal a bAddr = (a = bAddr)"

text \<open>The loop of \<^verbatim>\<open>Contains\<close>, which returns false at the first difference.\<close>

fun Contains_loop :: "int list \<Rightarrow> int list \<Rightarrow> nat list \<Rightarrow> panic + bool" where
  "Contains_loop aCoords bCoords [] = Inr True"
| "Contains_loop aCoords bCoords (i # rest) =
     bind_res (array_get aCoords i) (\<lambda>x.
       bind_res (array_get bCoords i) (\<lambda>y.
         if x \<noteq> y then Inr False else Contains_loop aCoords bCoords rest))"

definition Contains :: "Addr \<Rightarrow> Addr \<Rightarrow> panic + bool" where
  "Contains a bAddr =
     (let aDims = Dims a; bDims = Dims bAddr
      in if aDims > bDims then Inr False
         else bind_res (Coords a) (\<lambda>(aCoords, _).
                bind_res (Coords bAddr) (\<lambda>(bCoords, _).
                  Contains_loop aCoords bCoords [0..<aDims])))"

text \<open>
  The loop of \<^verbatim>\<open>InRange\<close> over the \<^verbatim>\<open>[2]int\<close> pairs, with its \<^verbatim>\<open>break\<close> and
  its early returns; \<^verbatim>\<open>&&\<close> reads the coordinate only when the bound is not -1.
\<close>

fun InRange_loop :: "int list \<Rightarrow> nat \<Rightarrow> nat \<Rightarrow> (int \<times> int) list \<Rightarrow> panic + bool" where
  "InRange_loop aCoords dims index [] = Inr True"
| "InRange_loop aCoords dims index (rg # rest) =
     (if index \<ge> dims then Inr True
      else bind_res
             (if fst rg \<noteq> - 1
              then bind_res (array_get aCoords index) (\<lambda>c. Inr (c < fst rg))
              else Inr False)
             (\<lambda>below.
                if below then Inr False
                else bind_res
                       (if snd rg \<noteq> - 1
                        then bind_res (array_get aCoords index) (\<lambda>c. Inr (c > snd rg))
                        else Inr False)
                       (\<lambda>above.
                          if above then Inr False
                          else InRange_loop aCoords dims (Suc index) rest)))"

definition InRange :: "Addr \<Rightarrow> (int \<times> int) list \<Rightarrow> panic + bool" where
  "InRange a ranges =
     bind_res (Coords a) (\<lambda>(aCoords, dims). InRange_loop aCoords dims 0 ranges)"

fun IsZero_loop :: "int list \<Rightarrow> nat list \<Rightarrow> panic + bool" where
  "IsZero_loop coords [] = Inr True"
| "IsZero_loop coords (i # rest) =
     bind_res (array_get coords i) (\<lambda>c.
       if c \<noteq> 0 then Inr False else IsZero_loop coords rest)"

definition IsZero :: "Addr \<Rightarrow> panic + bool" where
  "IsZero a = bind_res (Coords a) (\<lambda>(coords, dims). IsZero_loop coords [0..<dims])"

section \<open>Transformers\<close>

definition With :: "Addr \<Rightarrow> int \<Rightarrow> int \<Rightarrow> panic + Addr" where
  "With a dimIdx v =
     bind_res (Coords a) (\<lambda>(aCoords, dims).
       if dimIdx < 0 \<or> dimIdx \<ge> int dims then Inl (Panic (msg_dim_index dimIdx dims))
       else bind_res
              (for_range dims
                 (\<lambda>i coords. bind_res (array_get aCoords i) (\<lambda>c. array_set coords i c))
                 (replicate dims 0))
              (\<lambda>coords. bind_res (array_set coords (nat dimIdx) v) New))"

section \<open>The address as a sequence of 256 bits\<close>

text \<open>Bit \<open>n\<close> of the address is bit \<open>n mod 64\<close> of word \<open>n div 64\<close>.\<close>

definition addr_bit :: "Addr \<Rightarrow> nat \<Rightarrow> bool" where
  "addr_bit a n =
     (if n < 64 then bit (w0 a) n else if n < 128 then bit (w1 a) (n - 64)
      else if n < 192 then bit (w2 a) (n - 128) else n < 256 \<and> bit (w3 a) (n - 192))"


section \<open>Loops and bit accesses\<close>

lemma bind_res_simps [simp]:
  "bind_res (Inl e) f = Inl e"
  "bind_res (Inr x) f = f x"
  by (simp_all add: bind_res_def)

lemma for_each_rule_aux:
  assumes step: "\<And>pre i s. P pre s \<Longrightarrow> i \<in> set xs \<Longrightarrow> \<exists>s'. body i s = Inr s' \<and> P (pre @ [i]) s'"
  shows "P pre s \<Longrightarrow> \<exists>s'. for_each xs body s = Inr s' \<and> P (pre @ xs) s'"
  using step
proof (induction xs arbitrary: pre s)
  case Nil
  then show ?case by simp
next
  case (Cons x xs)
  from Cons.prems(2)[OF Cons.prems(1), of x]
  obtain s1 where s1: "body x s = Inr s1" "P (pre @ [x]) s1" by auto
  have "\<exists>s'. for_each xs body s1 = Inr s' \<and> P ((pre @ [x]) @ xs) s'"
    by (rule Cons.IH[OF s1(2)]) (use Cons.prems(2) in auto)
  with s1 show ?case by simp
qed

lemma for_each_rule:
  assumes "P [] s"
    and "\<And>pre i s. P pre s \<Longrightarrow> i \<in> set xs \<Longrightarrow> \<exists>s'. body i s = Inr s' \<and> P (pre @ [i]) s'"
  shows "\<exists>s'. for_each xs body s = Inr s' \<and> P xs s'"
  using for_each_rule_aux[of P xs body "[]" s] assms by simp

lemma for_range_rule:
  assumes "P {} s"
    and "\<And>D i s. P D s \<Longrightarrow> i < n \<Longrightarrow> \<exists>s'. body i s = Inr s' \<and> P (insert i D) s'"
  shows "\<exists>s'. for_range n body s = Inr s' \<and> P {..<n} s'"
proof -
  have "\<exists>s'. for_each [0..<n] body s = Inr s' \<and> P (set [0..<n]) s'"
    by (rule for_each_rule[where P = "\<lambda>pre. P (set pre)"]) (use assms in \<open>auto simp: insert_commute\<close>)
  then show ?thesis by (simp add: for_range_def atLeast0LessThan)
qed

lemma word_get_bit:
  assumes "e < 256"
  shows "\<exists>w. word_get a (e div 64) = Inr w \<and> (drop_bit (e mod 64) w AND 1 = 1 \<longleftrightarrow> addr_bit a e)"
proof -
  have t: "(drop_bit k w AND 1 = 1) = bit w k" for w :: "64 word" and k
    by (simp add: and_one_eq bit_iff_odd_drop_bit odd_iff_mod_2_eq_one)
  consider "e < 64" | "64 \<le> e" "e < 128" | "128 \<le> e" "e < 192" | "192 \<le> e" "e < 256"
    using assms by linarith
  then show ?thesis
  proof cases
    case 1 then show ?thesis by (simp add: word_get_def addr_bit_def t)
  next
    case 2
    then have "e div 64 = 1" "e mod 64 = e - 64" by (simp_all add: div_nat_eqI mod_if)
    with 2 show ?thesis by (simp add: word_get_def addr_bit_def t)
  next
    case 3
    then have "e div 64 = 2" "e mod 64 = e - 128" by (auto simp add: div_nat_eqI mod_nat_eqI)
    with 3 show ?thesis by (simp add: word_get_def addr_bit_def t)
  next
    case 4
    then have "e div 64 = 3" "e mod 64 = e - 192" by (auto simp add: div_nat_eqI mod_nat_eqI)
    with 4 show ?thesis by (simp add: word_get_def addr_bit_def t)
  qed
qed

section \<open>The bits set by the encoder\<close>

lemma bit_or_push1:
  "k < 64 \<Longrightarrow> bit (w OR 2 ^ k :: 64 word) m \<longleftrightarrow> bit w m \<or> m = k"
  by (auto simp: bit_or_iff bit_exp_iff)

lemma word_set_bit:
  assumes "e < 256"
  shows "\<exists>w a'. word_get a (e div 64) = Inr w \<and>
           word_set a (e div 64) (w OR push_bit (e mod 64) 1) = Inr a' \<and>
           (\<forall>n. addr_bit a' n \<longleftrightarrow> addr_bit a n \<or> n = e)"
proof -
  consider "e < 64" | "64 \<le> e" "e < 128" | "128 \<le> e" "e < 192" | "192 \<le> e" "e < 256"
    using assms by linarith
  then show ?thesis
  proof cases
    case 1 then show ?thesis
      by (auto simp add: word_get_def word_set_def addr_bit_def bit_or_push1)
  next
    case 2
    then have "e div 64 = 1" "e mod 64 = e - 64" by (simp_all add: div_nat_eqI mod_if)
    with 2 show ?thesis
      by (auto simp add: word_get_def word_set_def addr_bit_def bit_or_push1)
  next
    case 3
    then have "e div 64 = 2" "e mod 64 = e - 128" by (auto simp add: div_nat_eqI mod_nat_eqI)
    with 3 show ?thesis
      by (auto simp add: word_get_def word_set_def addr_bit_def bit_or_push1)
  next
    case 4
    then have "e div 64 = 3" "e mod 64 = e - 192" by (auto simp add: div_nat_eqI mod_nat_eqI)
    with 4 show ?thesis
      by (auto simp add: word_get_def word_set_def addr_bit_def bit_or_push1)
  qed
qed

lemma encodedBitPos_bound:
  assumes "dims \<le> 12" "bitPos < 20" "dimIdx < dims"
  shows "encodedBitPos bitPos dims dimIdx \<le> 243"
proof -
  have "bitPos * dims \<le> 19 * 12"
    by (rule mult_le_mono) (use assms in auto)
  with assms show ?thesis by (simp add: encodedBitPos_def)
qed

lemma int_bit_test: "(drop_bit k (c::int) AND 1 = 1) = bit c k"
  by (simp add: and_one_eq bit_iff_odd_drop_bit odd_iff_mod_2_eq_one)

lemma New_step_bits:
  assumes "length coords \<le> 12" "bitPos < 20" "dimIdx < length coords"
  shows "\<exists>a'. New_step coords bitPos dimIdx a = Inr a' \<and>
           (\<forall>n. addr_bit a' n \<longleftrightarrow>
                  addr_bit a n \<or>
                  (n = encodedBitPos bitPos (length coords) dimIdx \<and> bit (coords ! dimIdx) bitPos))"
proof -
  let ?e = "encodedBitPos bitPos (length coords) dimIdx"
  have e: "?e < 256" using encodedBitPos_bound[OF assms] by simp
  show ?thesis
  proof (cases "bit (coords ! dimIdx) bitPos")
    case True
    from word_set_bit[OF e, of a] obtain w a' where
      "word_get a (?e div 64) = Inr w"
      "word_set a (?e div 64) (w OR push_bit (?e mod 64) 1) = Inr a'"
      "\<forall>n. addr_bit a' n \<longleftrightarrow> addr_bit a n \<or> n = ?e" by blast
    with True assms(3) show ?thesis
      by (simp add: New_step_def array_get_def int_bit_test Let_def)
  next
    case False
    with assms(3) show ?thesis
      by (simp add: New_step_def array_get_def int_bit_test Let_def)
  qed
qed

lemma New_inner_bits:
  assumes "length coords \<le> 12" "bitPos < 20"
  shows "\<exists>a'. for_range (length coords) (New_step coords bitPos) a = Inr a' \<and>
           (\<forall>n. addr_bit a' n \<longleftrightarrow>
                  addr_bit a n \<or>
                  (\<exists>i<length coords. n = encodedBitPos bitPos (length coords) i \<and> bit (coords ! i) bitPos))"
proof -
  let ?P = "\<lambda>D s. \<forall>n. addr_bit s n \<longleftrightarrow> addr_bit a n \<or>
               (\<exists>i\<in>D. n = encodedBitPos bitPos (length coords) i \<and> bit (coords ! i) bitPos)"
  have "\<exists>a'. for_range (length coords) (New_step coords bitPos) a = Inr a' \<and> ?P {..<length coords} a'"
  proof (rule for_range_rule[where P = ?P])
    show "?P {} a" by simp
  next
    fix D i s assume P: "?P D s" and i: "i < length coords"
    from New_step_bits[OF assms i, of s] obtain s' where
      s': "New_step coords bitPos i s = Inr s'"
      "\<forall>n. addr_bit s' n \<longleftrightarrow> addr_bit s n \<or>
         (n = encodedBitPos bitPos (length coords) i \<and> bit (coords ! i) bitPos)" by blast
    have "?P (insert i D) s'"
      unfolding s'(2)[rule_format] P[rule_format] by blast
    with s'(1) show "\<exists>s'. New_step coords bitPos i s = Inr s' \<and> ?P (insert i D) s'" by blast
  qed
  then show ?thesis by (simp add: Bex_def)
qed

lemma New_loops_bits:
  assumes "length coords \<le> 12"
  shows "\<exists>a'. for_range BitsPerCoord
                 (\<lambda>bitPos. for_range (length coords) (New_step coords bitPos)) a = Inr a' \<and>
           (\<forall>n. addr_bit a' n \<longleftrightarrow>
                  addr_bit a n \<or>
                  (\<exists>p<20. \<exists>i<length coords.
                      n = encodedBitPos p (length coords) i \<and> bit (coords ! i) p))"
proof -
  let ?body = "\<lambda>bitPos. for_range (length coords) (New_step coords bitPos)"
  let ?P = "\<lambda>D s. \<forall>n. addr_bit s n \<longleftrightarrow> addr_bit a n \<or>
               (\<exists>p\<in>D. \<exists>i<length coords. n = encodedBitPos p (length coords) i \<and> bit (coords ! i) p)"
  have "\<exists>a'. for_range 20 ?body a = Inr a' \<and> ?P {..<20} a'"
  proof (rule for_range_rule[where P = ?P])
    show "?P {} a" by simp
  next
    fix D p s assume P: "?P D s" and p: "p < (20::nat)"
    from New_inner_bits[OF assms p, of s] obtain s' where
      s': "?body p s = Inr s'"
      "\<forall>n. addr_bit s' n \<longleftrightarrow> addr_bit s n \<or>
         (\<exists>i<length coords. n = encodedBitPos p (length coords) i \<and> bit (coords ! i) p)" by blast
    have "?P (insert p D) s'"
      unfolding s'(2)[rule_format] P[rule_format] by blast
    with s'(1) show "\<exists>s'. ?body p s = Inr s' \<and> ?P (insert p D) s'" by blast
  qed
  then show ?thesis by (simp add: Bex_def BitsPerCoord_def)
qed

section \<open>Validation in the encoder\<close>

lemma MaxCoordValue_eq: "MaxCoordValue = 1048575"
  by (simp add: MaxCoordValue_def BitsPerCoord_def)

lemma msg_max_dims_12: "msg_max_dims 12 = ''lattice: max 12 dimensions supported''"
  by (simp add: msg_max_dims_def sprintf_d_def digits.simps digit_def)

lemma msg_coord_neq_max: "msg_coord i v m \<noteq> ''lattice: max 12 dimensions supported''"
  by (simp add: msg_coord_def)

lemma check_coords_None:
  "check_coords k coords = None \<longleftrightarrow> (\<forall>v\<in>set coords. 0 \<le> v \<and> v \<le> 1048575)"
  by (induction coords arbitrary: k) (auto simp: MaxCoordValue_eq)

lemma check_coords_msg:
  "check_coords k coords = Some e \<Longrightarrow> \<exists>i v. e = Panic (msg_coord i v 1048575)"
  by (induction coords arbitrary: k) (auto simp: MaxCoordValue_eq split: if_splits)

lemma check_coords_first:
  assumes "i < length coords" "coords ! i < 0 \<or> coords ! i > 1048575"
    and "\<forall>j<i. 0 \<le> coords ! j \<and> coords ! j \<le> 1048575"
  shows "check_coords k coords = Some (Panic (msg_coord (k + i) (coords ! i) 1048575))"
  using assms
proof (induction coords arbitrary: k i)
  case Nil
  then show ?case by simp
next
  case (Cons v vs)
  show ?case
  proof (cases i)
    case 0
    with Cons.prems show ?thesis by (auto simp: MaxCoordValue_eq)
  next
    case (Suc i')
    from Cons.prems(3) Suc have v: "0 \<le> v \<and> v \<le> 1048575" by auto
    have "check_coords (Suc k) vs = Some (Panic (msg_coord (Suc k + i') (vs ! i') 1048575))"
      by (rule Cons.IH) (use Cons.prems Suc in auto)
    with v Suc show ?thesis by (simp add: MaxCoordValue_eq)
  qed
qed

lemma New_ok:
  assumes "length coords \<le> 12" "\<forall>v\<in>set coords. 0 \<le> v \<and> v \<le> 1048575"
  shows "\<exists>a. New coords = Inr a \<and>
           (\<forall>n. addr_bit a n \<longleftrightarrow>
                  addr_bit (Addr (of_nat (length coords)) 0 0 0) n \<or>
                  (\<exists>p<20. \<exists>i<length coords.
                      n = encodedBitPos p (length coords) i \<and> bit (coords ! i) p))"
proof -
  have "check_coords 0 coords = None" using assms(2) by (simp add: check_coords_None)
  with assms(1) New_loops_bits[OF assms(1), of "Addr (of_nat (length coords)) 0 0 0"]
  show ?thesis by (simp add: New_def MaxDimensions_def)
qed

lemma New_cases:
  "New coords =
     (if length coords > 12 then Inl (Panic ''lattice: max 12 dimensions supported'')
      else case check_coords 0 coords of Some e \<Rightarrow> Inl e | None \<Rightarrow> New coords)"
  by (simp add: New_def msg_max_dims_12 MaxDimensions_def split: option.splits)

text \<open>
  Claim C3, as the code has it. \<^verbatim>\<open>New\<close> validates in order. It panics with
  \<^verbatim>\<open>lattice: max 12 dimensions supported\<close> exactly when more than 12 coordinates are
  given; the message holds the limit only, not the number of coordinates given. Otherwise it
  panics with the coordinate message, which holds the index and the value of the first
  element that is negative or above 1048575, exactly when there is such an element.
  Otherwise it returns an address.
\<close>

theorem New_validation:
  "(New coords = Inl (Panic ''lattice: max 12 dimensions supported'') \<longleftrightarrow> length coords > 12) \<and>
   (length coords \<le> 12 \<longrightarrow>
      (\<forall>i<length coords.
          (coords ! i < 0 \<or> coords ! i > 1048575) \<and>
          (\<forall>j<i. 0 \<le> coords ! j \<and> coords ! j \<le> 1048575) \<longrightarrow>
          New coords = Inl (Panic (msg_coord i (coords ! i) 1048575)))) \<and>
   ((\<exists>i v. New coords = Inl (Panic (msg_coord i v 1048575))) \<longleftrightarrow>
      length coords \<le> 12 \<and> (\<exists>v\<in>set coords. v < 0 \<or> v > 1048575)) \<and>
   ((\<exists>a. New coords = Inr a) \<longleftrightarrow>
      length coords \<le> 12 \<and> (\<forall>v\<in>set coords. 0 \<le> v \<and> v \<le> 1048575))"
proof (cases "length coords > 12")
  case True
  then have "New coords = Inl (Panic ''lattice: max 12 dimensions supported'')"
    by (subst New_cases) simp
  with True show ?thesis using msg_coord_neq_max[symmetric] by auto
next
  case len: False
  show ?thesis
  proof (cases "check_coords 0 coords")
    case None
    then have ok: "\<forall>v\<in>set coords. 0 \<le> v \<and> v \<le> 1048575" by (simp add: check_coords_None)
    with len New_ok[of coords] obtain a where a: "New coords = Inr a" by auto
    have "\<not> (coords ! i < 0 \<or> coords ! i > 1048575)" if "i < length coords" for i
      using ok that by (auto simp: not_less dest: nth_mem)
    with a ok len show ?thesis by auto
  next
    case (Some e)
    with len have N: "New coords = Inl e" by (subst New_cases) simp
    from Some obtain i v where e: "e = Panic (msg_coord i v 1048575)"
      by (blast dest: check_coords_msg)
    from Some have bad: "\<exists>v\<in>set coords. v < 0 \<or> v > 1048575"
      using check_coords_None[of 0 coords] by (auto simp: not_le)
    have first: "New coords = Inl (Panic (msg_coord i (coords ! i) 1048575))"
      if "i < length coords" "coords ! i < 0 \<or> coords ! i > 1048575"
         "\<forall>j<i. 0 \<le> coords ! j \<and> coords ! j \<le> 1048575" for i
      using check_coords_first[OF that, of 0] Some N by simp
    have "New coords \<noteq> Inl (Panic ''lattice: max 12 dimensions supported'')"
      using N e msg_coord_neq_max by simp
    moreover have "\<exists>i v. New coords = Inl (Panic (msg_coord i v 1048575))"
      using N e by blast
    moreover have "\<not> (\<exists>a. New coords = Inr a)" using N by simp
    moreover have "\<exists>v\<in>set coords. 0 \<le> v \<longrightarrow> \<not> v \<le> 1048575"
    proof -
      from bad obtain v where v: "v \<in> set coords" "v < 0 \<or> v > 1048575" by blast
      then have "0 \<le> v \<longrightarrow> \<not> v \<le> 1048575" by linarith
      with v(1) show ?thesis by blast
    qed
    ultimately show ?thesis using len bad first by (simp add: not_less)
  qed
qed

theorem New_validation_witness:
  "length [0, - 5 :: int] \<le> 12 \<and>
   New [0, - 5] = Inl (Panic ''lattice: coord[1]=-5 out of range [0,1048575]'')"
proof -
  have m: "msg_coord 1 (- 5) 1048575 = ''lattice: coord[1]=-5 out of range [0,1048575]''"
    by (simp add: msg_coord_def sprintf_d_def digits.simps digit_def)
  have len: "length [0, - 5 :: int] \<le> 12" by simp
  have i: "(1::nat) < length [0, - 5 :: int]" by simp
  have bad: "([0, - 5 :: int] ! 1 < 0 \<or> [0, - 5 :: int] ! 1 > 1048575) \<and>
          (\<forall>j<1. 0 \<le> [0, - 5 :: int] ! j \<and> [0, - 5 :: int] ! j \<le> 1048575)"
    by simp
  from New_validation[of "[0, - 5]", THEN conjunct2, THEN conjunct1, rule_format, OF len i bad]
  have "New [0, - 5] = Inl (Panic (msg_coord 1 ([0, - 5] ! 1) 1048575))" .
  then have "New [0, - 5] = Inl (Panic (msg_coord 1 (- 5) 1048575))" by simp
  with m len show ?thesis by simp
qed

text \<open>
  The panic for 13 coordinates and the panic for 14 coordinates are the same string: it
  does not report the number of coordinates given.
\<close>

theorem New_dimension_limit_counterexample:
  "New (replicate 13 0) = Inl (Panic ''lattice: max 12 dimensions supported'') \<and>
   New (replicate 14 0) = Inl (Panic ''lattice: max 12 dimensions supported'')"
  by code_simp

section \<open>The header and the bits read by the decoder\<close>

lemma Dims_le_15: "Dims a \<le> 15"
proof -
  have "w0 a AND 0xF \<le> 0xF" by (rule word_and_le1)
  then show ?thesis unfolding Dims_def by (simp add: word_le_nat_alt)
qed

lemma Dims_cong:
  assumes "\<forall>n<4. addr_bit a n = addr_bit b n"
  shows "Dims a = Dims b"
proof -
  have m: "(0xF :: 64 word) = mask 4" by (simp add: mask_eq_exp_minus_1)
  have "w0 a AND mask 4 = w0 b AND mask 4"
  proof (rule bit_eqI)
    fix n
    show "bit (w0 a AND mask 4) n = bit (w0 b AND mask 4) n"
      using assms[rule_format, of n] by (auto simp: bit_and_iff bit_mask_iff addr_bit_def)
  qed
  then show ?thesis by (simp add: Dims_def m)
qed

lemma header_bits:
  assumes "d < 16" and b: "addr_bit (Addr (of_nat d) 0 0 0) n"
  shows "n < 4"
proof -
  from b have "bit (of_nat d :: 64 word) n"
    by (auto simp: addr_bit_def split: if_splits)
  then have "bit d n" by (simp add: bit_of_nat_iff)
  moreover have "take_bit 4 d = d" using assms(1) by (simp add: take_bit_nat_eq_self)
  ultimately have "bit (take_bit 4 d) n" by simp
  then show "n < 4" by (simp add: bit_take_bit_iff)
qed

lemma Dims_header:
  assumes "d < 16"
  shows "Dims (Addr (of_nat d) 0 0 0) = d"
proof -
  have m: "(0xF :: 64 word) = mask 4" by (simp add: mask_eq_exp_minus_1)
  have t: "take_bit 4 d = d" using assms by (simp add: take_bit_nat_eq_self)
  have "(of_nat d :: 64 word) AND mask 4 = take_bit 4 (of_nat d)"
    by (simp add: take_bit_eq_mask)
  also have "\<dots> = of_nat (take_bit 4 d)" by (simp add: of_nat_take_bit)
  finally have "(of_nat d :: 64 word) AND mask 4 = of_nat d" by (simp add: t)
  moreover have "unat (of_nat d :: 64 word) = d"
    using assms by (simp add: unat_of_nat)
  ultimately show ?thesis by (simp add: Dims_def m)
qed

lemma int_bit_or_exp: "bit (c OR 2 ^ p :: int) q \<longleftrightarrow> bit c q \<or> q = p"
  by (auto simp: bit_or_iff bit_exp_iff)

lemma Coords_step_bits:
  assumes "dims \<le> 12" "bitPos < 20" "dimIdx < dims" "length s = 12"
  shows "\<exists>s'. Coords_step a dims bitPos dimIdx s = Inr s' \<and> length s' = 12 \<and>
           (\<forall>j<12. \<forall>q. bit (s' ! j) q \<longleftrightarrow>
               bit (s ! j) q \<or>
               (j = dimIdx \<and> q = bitPos \<and> addr_bit a (encodedBitPos bitPos dims dimIdx)))"
proof -
  let ?e = "encodedBitPos bitPos dims dimIdx"
  have e: "?e < 256" using encodedBitPos_bound[OF assms(1-3)] by simp
  from word_get_bit[OF e, of a] obtain w where
    w: "word_get a (?e div 64) = Inr w" "(drop_bit (?e mod 64) w AND 1 = 1) = addr_bit a ?e"
    by blast
  have i: "dimIdx < length s" using assms by simp
  show ?thesis
  proof (cases "addr_bit a ?e")
    case True
    with w i have "Coords_step a dims bitPos dimIdx s = Inr (s[dimIdx := s ! dimIdx OR 2 ^ bitPos])"
      by (simp add: Coords_step_def Let_def array_get_def array_set_def)
    moreover have "bit ((s[dimIdx := s ! dimIdx OR 2 ^ bitPos]) ! j) q \<longleftrightarrow>
        bit (s ! j) q \<or> (j = dimIdx \<and> q = bitPos \<and> addr_bit a ?e)" if "j < 12" for j q
      using that True assms(4) by (cases "j = dimIdx") (simp_all add: int_bit_or_exp)
    ultimately show ?thesis using assms(4) by simp
  next
    case False
    with w have "Coords_step a dims bitPos dimIdx s = Inr s"
      by (simp add: Coords_step_def Let_def)
    with False assms(4) show ?thesis by simp
  qed
qed

lemma Coords_inner_bits:
  assumes "dims \<le> 12" "bitPos < 20" "length s = 12"
  shows "\<exists>s'. for_range dims (Coords_step a dims bitPos) s = Inr s' \<and> length s' = 12 \<and>
           (\<forall>j<12. \<forall>q. bit (s' ! j) q \<longleftrightarrow>
               bit (s ! j) q \<or>
               (j < dims \<and> q = bitPos \<and> addr_bit a (encodedBitPos bitPos dims j)))"
proof -
  let ?P = "\<lambda>D t. length t = 12 \<and>
              (\<forall>j<12. \<forall>q. bit (t ! j) q \<longleftrightarrow>
                 bit (s ! j) q \<or>
                 (j \<in> D \<and> q = bitPos \<and> addr_bit a (encodedBitPos bitPos dims j)))"
  have "\<exists>s'. for_range dims (Coords_step a dims bitPos) s = Inr s' \<and> ?P {..<dims} s'"
  proof (rule for_range_rule[where P = ?P])
    show "?P {} s" using assms(3) by simp
  next
    fix D i and t :: "int list" assume P: "?P D t" and i: "i < dims"
    from P have len: "length t = 12" by simp
    from Coords_step_bits[OF assms(1,2) i len, of a] obtain t' where
      t': "Coords_step a dims bitPos i t = Inr t'" "length t' = 12"
      "\<forall>j<12. \<forall>q. bit (t' ! j) q \<longleftrightarrow>
          bit (t ! j) q \<or> (j = i \<and> q = bitPos \<and> addr_bit a (encodedBitPos bitPos dims i))"
      by blast
    have "bit (t' ! j) q \<longleftrightarrow>
            bit (s ! j) q \<or>
            (j \<in> insert i D \<and> q = bitPos \<and> addr_bit a (encodedBitPos bitPos dims j))"
      if "j < 12" for j q
      using t'(3)[rule_format, OF that, of q] P[THEN conjunct2, rule_format, OF that, of q]
      by blast
    with t'(1,2) show "\<exists>s'. Coords_step a dims bitPos i t = Inr s' \<and> ?P (insert i D) s'"
      by blast
  qed
  then show ?thesis by simp
qed

lemma Coords_loops_bits:
  assumes "dims \<le> 12"
  shows "\<exists>s'. for_range BitsPerCoord (\<lambda>bitPos. for_range dims (Coords_step a dims bitPos))
                 (replicate MaxDimensions 0) = Inr s' \<and> length s' = 12 \<and>
           (\<forall>j<12. \<forall>q. bit (s' ! j) q \<longleftrightarrow>
               q < 20 \<and> j < dims \<and> addr_bit a (encodedBitPos q dims j))"
proof -
  let ?body = "\<lambda>bitPos. for_range dims (Coords_step a dims bitPos)"
  let ?P = "\<lambda>D t. length t = 12 \<and>
              (\<forall>j<12. \<forall>q. bit (t ! j) q \<longleftrightarrow>
                 q \<in> D \<and> j < dims \<and> addr_bit a (encodedBitPos q dims j))"
  have "\<exists>s'. for_range 20 ?body (replicate 12 0) = Inr s' \<and> ?P {..<20} s'"
  proof (rule for_range_rule[where P = ?P])
    show "?P {} (replicate 12 0)" by simp
  next
    fix D p and t :: "int list" assume P: "?P D t" and p: "p < (20::nat)"
    from P have len: "length t = 12" by simp
    from Coords_inner_bits[OF assms p len, of a] obtain t' where
      t': "?body p t = Inr t'" "length t' = 12"
      "\<forall>j<12. \<forall>q. bit (t' ! j) q \<longleftrightarrow>
          bit (t ! j) q \<or> (j < dims \<and> q = p \<and> addr_bit a (encodedBitPos p dims j))"
      by blast
    have "bit (t' ! j) q \<longleftrightarrow>
            q \<in> insert p D \<and> j < dims \<and> addr_bit a (encodedBitPos q dims j)"
      if "j < 12" for j q
      using t'(3)[rule_format, OF that, of q] P[THEN conjunct2, rule_format, OF that, of q]
      by blast
    with t'(1,2) show "\<exists>s'. ?body p t = Inr s' \<and> ?P (insert p D) s'"
      by blast
  qed
  then show ?thesis by (simp add: BitsPerCoord_def MaxDimensions_def)
qed

lemma Coords_ok:
  assumes "Dims a \<le> 12"
  shows "\<exists>buf. Coords a = Inr (buf, Dims a) \<and> length buf = 12 \<and>
           (\<forall>j<12. \<forall>q. bit (buf ! j) q \<longleftrightarrow>
               q < 20 \<and> j < Dims a \<and> addr_bit a (encodedBitPos q (Dims a) j))"
  using Coords_loops_bits[OF assms, of a] by (auto simp: Coords_def Let_def)

lemma Coords_tail_zero:
  assumes "length buf = 12"
    and "\<forall>j<12. \<forall>q. bit (buf ! j) q \<longleftrightarrow> q < 20 \<and> j < d \<and> addr_bit a (encodedBitPos q d j)"
    and "d \<le> j" "j < 12"
  shows "buf ! j = (0::int)"
  by (rule bit_eqI) (use assms in simp)

section \<open>Decoding an encoded sequence\<close>

lemma encodedBitPos_inj:
  assumes "i < d" "i' < d" "encodedBitPos p d i = encodedBitPos p' d i'"
  shows "p = p' \<and> i = i'"
proof -
  from assms(3) have eq: "i + p * d = i' + p' * d" by (simp add: encodedBitPos_def)
  have "(i + p * d) div d = p" "(i' + p' * d) div d = p'" using assms(1,2) by simp_all
  with eq have "p = p'" by simp
  with eq show ?thesis by simp
qed

lemma New_Inr_valid:
  assumes "New coords = Inr a"
  shows "length coords \<le> 12 \<and> (\<forall>v\<in>set coords. 0 \<le> v \<and> v \<le> 1048575)"
proof -
  from assms have len: "length coords \<le> 12"
    by (subst (asm) New_cases) (simp split: if_splits)
  with assms have "check_coords 0 coords = None"
    by (subst (asm) New_cases) (simp split: option.splits)
  with len show ?thesis by (simp add: check_coords_None)
qed

lemma coord_bit_bound:
  assumes "0 \<le> c" "c \<le> 1048575" "bit (c::int) q"
  shows "q < 20"
proof -
  have "take_bit 20 c = c" using assms(1,2) by (simp add: take_bit_int_eq_self)
  with assms(3) have "bit (take_bit 20 c) q" by simp
  then show ?thesis by (simp add: bit_take_bit_iff)
qed

lemma New_read:
  assumes "length coords \<le> 12" "\<forall>v\<in>set coords. 0 \<le> v \<and> v \<le> 1048575"
  shows "\<exists>a. New coords = Inr a \<and> Dims a = length coords \<and>
           (\<forall>p<20. \<forall>i<length coords.
               addr_bit a (encodedBitPos p (length coords) i) \<longleftrightarrow> bit (coords ! i) p)"
proof -
  let ?d = "length coords"
  let ?a0 = "Addr (of_nat ?d) 0 0 0"
  from New_ok[OF assms] obtain a where
    a: "New coords = Inr a"
    and bits: "\<forall>n. addr_bit a n \<longleftrightarrow>
                addr_bit ?a0 n \<or>
                (\<exists>p<20. \<exists>i<?d. n = encodedBitPos p ?d i \<and> bit (coords ! i) p)"
    by blast
  have d16: "?d < 16" using assms(1) by simp
  have "Dims a = Dims ?a0"
  proof (rule Dims_cong, intro allI impI)
    fix n :: nat assume "n < 4"
    then have "\<not> (\<exists>p<20. \<exists>i<?d. n = encodedBitPos p ?d i \<and> bit (coords ! i) p)"
      by (auto simp: encodedBitPos_def)
    then show "addr_bit a n = addr_bit ?a0 n" using bits by blast
  qed
  then have dims: "Dims a = ?d" by (simp add: Dims_header[OF d16])
  have "addr_bit a (encodedBitPos p ?d i) \<longleftrightarrow> bit (coords ! i) p"
    if p: "p < 20" and i: "i < ?d" for p i
  proof -
    have "\<not> addr_bit ?a0 (encodedBitPos p ?d i)"
      using header_bits[OF d16, of "encodedBitPos p ?d i"] by (auto simp: encodedBitPos_def)
    moreover have "(\<exists>p'<20. \<exists>i'<?d. encodedBitPos p ?d i = encodedBitPos p' ?d i' \<and> bit (coords ! i') p')
        \<longleftrightarrow> bit (coords ! i) p"
      using p i by (auto dest: encodedBitPos_inj[rotated 2])
    ultimately show ?thesis using bits by blast
  qed
  with a dims show ?thesis by blast
qed

lemma roundtrip:
  assumes "length coords \<le> 12" "\<forall>v\<in>set coords. 0 \<le> v \<and> v \<le> 1048575"
  shows "\<exists>a buf. New coords = Inr a \<and> Dims a = length coords \<and>
           Coords a = Inr (buf, length coords) \<and> length buf = 12 \<and>
           (\<forall>i<length coords. buf ! i = coords ! i) \<and>
           (\<forall>i. length coords \<le> i \<and> i < 12 \<longrightarrow> buf ! i = 0)"
proof -
  let ?d = "length coords"
  from New_read[OF assms] obtain a where
    a: "New coords = Inr a" "Dims a = ?d"
    and rd: "\<forall>p<20. \<forall>i<?d. addr_bit a (encodedBitPos p ?d i) \<longleftrightarrow> bit (coords ! i) p"
    by blast
  from a(2) assms(1) have "Dims a \<le> 12" by simp
  from Coords_ok[OF this] a(2) obtain buf where
    buf: "Coords a = Inr (buf, ?d)" "length buf = 12"
    and bb: "\<forall>j<12. \<forall>q. bit (buf ! j) q \<longleftrightarrow> q < 20 \<and> j < ?d \<and> addr_bit a (encodedBitPos q ?d j)"
    by auto
  have "buf ! i = coords ! i" if i: "i < ?d" for i
  proof (rule bit_eqI)
    fix q
    from i have c: "0 \<le> coords ! i" "coords ! i \<le> 1048575" using assms(2) by auto
    from i assms(1) have i12: "i < 12" by simp
    show "bit (buf ! i) q = bit (coords ! i) q"
      using bb[rule_format, OF i12, of q] rd[rule_format, of q i] i coord_bit_bound[OF c, of q]
      by auto
  qed
  moreover have "buf ! i = 0" if "?d \<le> i \<and> i < 12" for i
    using Coords_tail_zero[OF buf(2) bb] that by blast
  ultimately show ?thesis using a buf by blast
qed

text \<open>
  Claim C1 (round trip). For a sequence of at most 12 coordinates, each in 0..1048575,
  \<^verbatim>\<open>New\<close> returns an address, and \<^verbatim>\<open>Coords\<close> of that address returns the count
  \<open>length coords\<close> and a buffer of 12 entries whose first \<open>length coords\<close> entries are
  the coordinates, one by one.
\<close>

theorem Coords_New_roundtrip:
  assumes "length coords \<le> 12" "\<forall>v\<in>set coords. 0 \<le> v \<and> v \<le> 1048575"
  shows "\<exists>a buf. New coords = Inr a \<and> Coords a = Inr (buf, length coords) \<and>
           length buf = 12 \<and> (\<forall>i<length coords. buf ! i = coords ! i)"
  using roundtrip[OF assms] by blast

theorem Coords_New_roundtrip_witness:
  "\<exists>a buf. New [1048575, 0, 5, 7] = Inr a \<and> Coords a = Inr (buf, 4) \<and>
     length buf = 12 \<and> buf ! 0 = 1048575 \<and> buf ! 1 = 0 \<and> buf ! 2 = 5 \<and> buf ! 3 = 7"
proof -
  have h1: "length [1048575, 0, 5, 7 :: int] \<le> 12" by simp
  have h2: "\<forall>v\<in>set [1048575, 0, 5, 7 :: int]. 0 \<le> v \<and> v \<le> 1048575" by simp
  from Coords_New_roundtrip[OF h1 h2] obtain a buf where
    r: "New [1048575, 0, 5, 7] = Inr a" "Coords a = Inr (buf, length [1048575, 0, 5, 7 :: int])"
       "length buf = 12" "\<forall>i<length [1048575, 0, 5, 7 :: int]. buf ! i = [1048575, 0, 5, 7] ! i"
    by blast
  from r(4) have "buf ! 0 = 1048575" "buf ! 1 = 0" "buf ! 2 = 5" "buf ! 3 = 7"
    by simp_all
  with r(1,2,3) show ?thesis by auto
qed

text \<open>
  Claim C2 (injectivity). For two valid coordinate sequences, the two addresses are the
  same four words, which is what \<^verbatim>\<open>Equal\<close> compares, if and only if the sequences have
  the same length and agree at every index.
\<close>

theorem New_injective:
  assumes "length a \<le> 12" "\<forall>v\<in>set a. 0 \<le> v \<and> v \<le> 1048575"
    and "length b \<le> 12" "\<forall>v\<in>set b. 0 \<le> v \<and> v \<le> 1048575"
  shows "\<exists>x y. New a = Inr x \<and> New b = Inr y \<and>
           (Equal x y \<longleftrightarrow> length a = length b \<and> (\<forall>i<length a. a ! i = b ! i))"
proof -
  from roundtrip[OF assms(1,2)] obtain x bx where
    x: "New a = Inr x" "Coords x = Inr (bx, length a)" "\<forall>i<length a. bx ! i = a ! i"
    by blast
  from roundtrip[OF assms(3,4)] obtain y by' where
    y: "New b = Inr y" "Coords y = Inr (by', length b)" "\<forall>i<length b. by' ! i = b ! i"
    by blast
  have "length a = length b \<and> (\<forall>i<length a. a ! i = b ! i)" if "x = y"
    using that x(2,3) y(2,3) by auto
  moreover have "x = y" if "length a = length b \<and> (\<forall>i<length a. a ! i = b ! i)"
  proof -
    from that have "a = b" by (auto intro: nth_equalityI)
    with x(1) y(1) show ?thesis by simp
  qed
  ultimately show ?thesis using x(1) y(1) unfolding Equal_def by blast
qed

theorem New_injective_witness:
  "\<exists>x y. New [1, 2] = Inr x \<and> New [2, 1] = Inr y \<and> \<not> Equal x y"
proof -
  have h1: "length [1, 2 :: int] \<le> 12" and h2: "\<forall>v\<in>set [1, 2 :: int]. 0 \<le> v \<and> v \<le> 1048575"
    and h3: "length [2, 1 :: int] \<le> 12" and h4: "\<forall>v\<in>set [2, 1 :: int]. 0 \<le> v \<and> v \<le> 1048575"
    by simp_all
  from New_injective[OF h1 h2 h3 h4] obtain x y where
    r: "New [1, 2] = Inr x" "New [2, 1] = Inr y"
       "Equal x y \<longleftrightarrow> length [1, 2 :: int] = length [2, 1 :: int] \<and>
          (\<forall>i<length [1, 2 :: int]. [1, 2 :: int] ! i = [2, 1] ! i)"
    by blast
  have "\<not> (\<forall>i<length [1, 2 :: int]. [1, 2 :: int] ! i = [2, 1] ! i)"
    by (auto intro: exI[of _ 0])
  with r show ?thesis by blast
qed

text \<open>
  Claim C8. For an address built by \<^verbatim>\<open>New\<close>, \<^verbatim>\<open>Coords\<close> returns a buffer of 12
  entries and the count \<^verbatim>\<open>Dims()\<close>, and every entry at an index from the count on is 0.
\<close>

theorem Coords_unused_entries_zero:
  assumes "New coords = Inr a"
  shows "\<exists>buf. Coords a = Inr (buf, Dims a) \<and> length buf = 12 \<and>
           (\<forall>i. Dims a \<le> i \<and> i < 12 \<longrightarrow> buf ! i = 0)"
proof -
  from New_Inr_valid[OF assms] have v: "length coords \<le> 12"
    "\<forall>v\<in>set coords. 0 \<le> v \<and> v \<le> 1048575" by simp_all
  from roundtrip[OF v] assms show ?thesis by auto
qed

theorem Coords_unused_entries_zero_witness:
  "New [1, 2, 3] = Inr (Addr 851 0 0 0) \<and>
   (\<exists>buf. Coords (Addr 851 0 0 0) = Inr (buf, Dims (Addr 851 0 0 0)) \<and> length buf = 12 \<and>
      buf ! 3 = 0 \<and> buf ! 11 = 0) \<and> Dims (Addr 851 0 0 0) = 3"
proof -
  have n: "New [1, 2, 3] = Inr (Addr 851 0 0 0)" by code_simp
  have d: "Dims (Addr 851 0 0 0) = 3" by code_simp
  from Coords_unused_entries_zero[OF n] d n show ?thesis by auto
qed

section \<open>Prefix containment\<close>

lemma array_get_ok [simp]: "i < length xs \<Longrightarrow> array_get xs i = Inr (xs ! i)"
  by (simp add: array_get_def)

lemma Contains_loop_eq:
  assumes "\<forall>i\<in>set idx. i < length ac \<and> i < length bc"
  shows "Contains_loop ac bc idx = Inr (\<forall>i\<in>set idx. ac ! i = bc ! i)"
  using assms by (induction idx) auto

lemma IsZero_loop_eq:
  assumes "\<forall>i\<in>set idx. i < length cs"
  shows "IsZero_loop cs idx = Inr (\<forall>i\<in>set idx. cs ! i = 0)"
  using assms by (induction idx) auto

lemma Contains_decoded:
  assumes "Dims a \<le> 12" "Dims b \<le> 12"
  shows "\<exists>ac bc. Coords a = Inr (ac, Dims a) \<and> Coords b = Inr (bc, Dims b) \<and>
           Contains a b = Inr (Dims a \<le> Dims b \<and> (\<forall>i<Dims a. ac ! i = bc ! i))"
proof -
  from Coords_ok[OF assms(1)] obtain ac where ac: "Coords a = Inr (ac, Dims a)" "length ac = 12"
    by blast
  from Coords_ok[OF assms(2)] obtain bc where bc: "Coords b = Inr (bc, Dims b)" "length bc = 12"
    by blast
  have "Contains a b = Inr (Dims a \<le> Dims b \<and> (\<forall>i<Dims a. ac ! i = bc ! i))"
  proof (cases "Dims a > Dims b")
    case True
    then show ?thesis by (simp add: Contains_def Let_def)
  next
    case False
    have "Contains_loop ac bc [0..<Dims a] = Inr (\<forall>i\<in>set [0..<Dims a]. ac ! i = bc ! i)"
      by (rule Contains_loop_eq) (use assms(1) ac(2) bc(2) in auto)
    with False ac(1) bc(1) show ?thesis by (auto simp add: Contains_def Let_def)
  qed
  with ac(1) bc(1) show ?thesis by blast
qed

lemma New_Dims:
  assumes "New coords = Inr a"
  shows "Dims a = length coords" "Dims a \<le> 12"
proof -
  from New_Inr_valid[OF assms] have v: "length coords \<le> 12"
    "\<forall>v\<in>set coords. 0 \<le> v \<and> v \<le> 1048575" by simp_all
  from roundtrip[OF v] assms show "Dims a = length coords" by auto
  with v(1) show "Dims a \<le> 12" by simp
qed

lemma New_decoded:
  assumes "New coords = Inr a"
  shows "\<exists>buf. Coords a = Inr (buf, length coords) \<and> length buf = 12 \<and>
           take (length coords) buf = coords"
proof -
  from New_Inr_valid[OF assms] have v: "length coords \<le> 12"
    "\<forall>v\<in>set coords. 0 \<le> v \<and> v \<le> 1048575" by simp_all
  from roundtrip[OF v] assms obtain buf where
    b: "Coords a = Inr (buf, length coords)" "length buf = 12"
       "\<forall>i<length coords. buf ! i = coords ! i" by auto
  have "take (length coords) buf = coords"
    by (rule nth_equalityI) (use b(2,3) v(1) in auto)
  with b show ?thesis by blast
qed

text \<open>
  Claim C4. For addresses \<open>a\<close> and \<open>b\<close> built by \<^verbatim>\<open>New\<close>, \<^verbatim>\<open>a.Contains(b)\<close> returns
  true if and only if \<^verbatim>\<open>a.Dims() <= b.Dims()\<close> and the decoded coordinates of \<open>a\<close> and
  \<open>b\<close> agree at every index below \<^verbatim>\<open>a.Dims()\<close>. An address of 0 dimensions contains
  every address and itself, and the relation is not symmetric: the address of (1, 2)
  contains the address of (1, 2, 3), which does not contain it.
\<close>

theorem Contains_prefix:
  assumes "New ca = Inr a" "New cb = Inr b"
  shows "\<exists>ac bc. Coords a = Inr (ac, Dims a) \<and> Coords b = Inr (bc, Dims b) \<and>
           Contains a b = Inr (Dims a \<le> Dims b \<and> (\<forall>i<Dims a. ac ! i = bc ! i)) \<and>
           (Dims a = 0 \<longrightarrow> Contains a b = Inr True \<and> Contains a a = Inr True) \<and>
           (\<exists>x y. New [1, 2] = Inr x \<and> New [1, 2, 3] = Inr y \<and>
              Contains x y = Inr True \<and> Contains y x = Inr False)"
proof -
  have a: "New [1, 2] = Inr (Addr 146 0 0 0)" by code_simp
  have b: "New [1, 2, 3] = Inr (Addr 851 0 0 0)" by code_simp
  have c: "Contains (Addr 146 0 0 0) (Addr 851 0 0 0) = Inr True" by code_simp
  have d: "Contains (Addr 851 0 0 0) (Addr 146 0 0 0) = Inr False" by code_simp
  from a b c d have asym: "\<exists>x y. New [1, 2] = Inr x \<and> New [1, 2, 3] = Inr y \<and>
      Contains x y = Inr True \<and> Contains y x = Inr False" by blast
  note da = New_Dims(2)[OF assms(1)] and db = New_Dims(2)[OF assms(2)]
  from Contains_decoded[OF da da] have "Dims a = 0 \<longrightarrow> Contains a a = Inr True" by auto
  with Contains_decoded[OF da db] asym show ?thesis by auto
qed

theorem Contains_prefix_witness:
  "New [1, 2] = Inr (Addr 146 0 0 0) \<and> New [1, 2, 3] = Inr (Addr 851 0 0 0) \<and>
   Contains (Addr 146 0 0 0) (Addr 851 0 0 0) = Inr True \<and>
   Contains (Addr 851 0 0 0) (Addr 146 0 0 0) = Inr False \<and>
   (\<exists>ac bc. Coords (Addr 146 0 0 0) = Inr (ac, Dims (Addr 146 0 0 0)) \<and>
      Coords (Addr 851 0 0 0) = Inr (bc, Dims (Addr 851 0 0 0)) \<and>
      Contains (Addr 146 0 0 0) (Addr 851 0 0 0) =
        Inr (Dims (Addr 146 0 0 0) \<le> Dims (Addr 851 0 0 0) \<and>
             (\<forall>i<Dims (Addr 146 0 0 0). ac ! i = bc ! i)))"
proof -
  have a: "New [1, 2] = Inr (Addr 146 0 0 0)" by code_simp
  have b: "New [1, 2, 3] = Inr (Addr 851 0 0 0)" by code_simp
  have c: "Contains (Addr 146 0 0 0) (Addr 851 0 0 0) = Inr True" by code_simp
  have d: "Contains (Addr 851 0 0 0) (Addr 146 0 0 0) = Inr False" by code_simp
  from Contains_prefix[OF a b] a b c d show ?thesis by blast
qed

section \<open>The range test\<close>

lemma InRange_loop_eq:
  assumes "dims \<le> length ac"
  shows "InRange_loop ac dims k ranges =
           Inr (\<forall>i<length ranges. k + i < dims \<longrightarrow>
                  (fst (ranges ! i) \<noteq> - 1 \<longrightarrow> fst (ranges ! i) \<le> ac ! (k + i)) \<and>
                  (snd (ranges ! i) \<noteq> - 1 \<longrightarrow> ac ! (k + i) \<le> snd (ranges ! i)))"
proof (induction ranges arbitrary: k)
  case Nil
  show ?case by simp
next
  case (Cons r rs)
  show ?case
  proof (cases "k \<ge> dims")
    case True
    then show ?thesis by simp
  next
    case False
    then have k: "k < length ac" "k < dims" using assms by simp_all
    have split: "(\<forall>i<Suc n. P i) \<longleftrightarrow> P 0 \<and> (\<forall>i<n. P (Suc i))" for n and P :: "nat \<Rightarrow> bool"
      by (auto simp: less_Suc_eq_0_disj)
    show ?thesis
      using False k by (simp add: Cons.IH[of "Suc k"] split not_less not_le)
  qed
qed

text \<open>
  Claim C5. For an address with decoded coordinates \<open>c\<close> and count \<open>d\<close>, and any list of
  (min, max) pairs, \<^verbatim>\<open>InRange\<close> returns true if and only if, at every index below both
  the number of pairs and \<open>d\<close>, the coordinate is at least min unless min is -1 and at
  most max unless max is -1. Coordinates past the pairs and pairs past \<open>d\<close> play no part.
\<close>

theorem InRange_bounds:
  assumes "Dims a \<le> 12"
  shows "\<exists>c. Coords a = Inr (c, Dims a) \<and>
           InRange a ranges =
             Inr (\<forall>i<min (length ranges) (Dims a).
                    (fst (ranges ! i) \<noteq> - 1 \<longrightarrow> c ! i \<ge> fst (ranges ! i)) \<and>
                    (snd (ranges ! i) \<noteq> - 1 \<longrightarrow> c ! i \<le> snd (ranges ! i)))"
proof -
  from Coords_ok[OF assms] obtain c where c: "Coords a = Inr (c, Dims a)" "length c = 12"
    by blast
  have "Dims a \<le> length c" using assms c(2) by simp
  from InRange_loop_eq[OF this, of 0 ranges] c(1)
  have "InRange a ranges =
          Inr (\<forall>i<length ranges. i < Dims a \<longrightarrow>
                 (fst (ranges ! i) \<noteq> - 1 \<longrightarrow> fst (ranges ! i) \<le> c ! i) \<and>
                 (snd (ranges ! i) \<noteq> - 1 \<longrightarrow> c ! i \<le> snd (ranges ! i)))"
    by (simp add: InRange_def)
  moreover have "(\<forall>i<length ranges. i < Dims a \<longrightarrow> Q i) \<longleftrightarrow> (\<forall>i<min (length ranges) (Dims a). Q i)"
    for Q by auto
  ultimately show ?thesis using c(1) by simp
qed

theorem InRange_bounds_witness:
  "Dims (Addr 851 0 0 0) \<le> 12 \<and>
   Coords (Addr 851 0 0 0) = Inr ([1, 2, 3, 0, 0, 0, 0, 0, 0, 0, 0, 0], 3) \<and>
   InRange (Addr 851 0 0 0) [(- 1, - 1), (2, 5)] = Inr True \<and>
   InRange (Addr 851 0 0 0) [(- 1, - 1), (- 1, 1)] = Inr False \<and>
   InRange (Addr 851 0 0 0) [(0, 1), (2, 2), (3, - 1), (7, 7)] = Inr True"
proof -
  have d: "Dims (Addr 851 0 0 0) \<le> 12" by code_simp
  have d3: "Dims (Addr 851 0 0 0) = 3" by code_simp
  have c: "Coords (Addr 851 0 0 0) = Inr ([1, 2, 3, 0, 0, 0, 0, 0, 0, 0, 0, 0], 3)" by code_simp
  from InRange_bounds[OF d, of "[(- 1, - 1), (2, 5)]"] c d3
  have 1: "InRange (Addr 851 0 0 0) [(- 1, - 1), (2, 5)] = Inr True"
    by (simp add: All_less_Suc numeral_2_eq_2)
  from InRange_bounds[OF d, of "[(- 1, - 1), (- 1, 1)]"] c d3
  have 2: "InRange (Addr 851 0 0 0) [(- 1, - 1), (- 1, 1)] = Inr False"
    by (simp add: All_less_Suc numeral_2_eq_2)
  from InRange_bounds[OF d, of "[(0, 1), (2, 2), (3, - 1), (7, 7)]"] c d3
  have 3: "InRange (Addr 851 0 0 0) [(0, 1), (2, 2), (3, - 1), (7, 7)] = Inr True"
    by (simp add: All_less_Suc numeral_3_eq_3 numeral_2_eq_2)
  from d c 1 2 3 show ?thesis by blast
qed

section \<open>Decoding into a slice\<close>

lemma CoordsSlice_copy:
  assumes "d \<le> length c" "d \<le> length (backing buf)"
  shows "\<exists>r. for_range d (\<lambda>i b. bind_res (array_get c i) (\<lambda>x. slice_set b i x))
                (buf\<lparr>len := d\<rparr>) = Inr r \<and>
             len r = d \<and> backing r = take d c @ drop d (backing buf)"
proof -
  let ?body = "\<lambda>i b. bind_res (array_get c i) (\<lambda>x. slice_set b i x)"
  let ?n = "length (backing buf)"
  let ?P = "\<lambda>D s. len s = d \<and> length (backing s) = ?n \<and>
              (\<forall>j<?n. backing s ! j = (if j \<in> D then c ! j else backing buf ! j))"
  have "\<exists>r. for_range d ?body (buf\<lparr>len := d\<rparr>) = Inr r \<and> ?P {..<d} r"
  proof (rule for_range_rule[where P = ?P])
    show "?P {} (buf\<lparr>len := d\<rparr>)" by simp
  next
    fix D i and s :: slice assume P: "?P D s" and i: "i < d"
    from i assms P have "?body i s = Inr (s\<lparr>backing := (backing s)[i := c ! i]\<rparr>)"
      by (simp add: slice_set_def)
    moreover have "?P (insert i D) (s\<lparr>backing := (backing s)[i := c ! i]\<rparr>)"
      using P i assms by (auto simp: nth_list_update)
    ultimately show "\<exists>s'. ?body i s = Inr s' \<and> ?P (insert i D) s'" by blast
  qed
  then obtain r where r: "for_range d ?body (buf\<lparr>len := d\<rparr>) = Inr r" "?P {..<d} r" by blast
  have "backing r = take d c @ drop d (backing buf)"
    by (rule nth_equalityI) (use r(2) assms in \<open>auto simp: nth_append\<close>)
  with r show ?thesis by blast
qed

lemma msg_buf_example: "msg_buf 3 0 = ''lattice: buf too small: need 3, got 0''"
  by (simp add: msg_buf_def sprintf_d_def digits.simps digit_def)

text \<open>
  Claim C6, as the code has it. For an address with dimension count \<open>d\<close> and a slice
  whose length is at most its capacity, \<^verbatim>\<open>CoordsSlice\<close> panics with
  \<^verbatim>\<open>lattice: buf too small: need d, got len(buf)\<close> exactly when the length of the slice,
  not its capacity, is less than \<open>d\<close>. Otherwise it writes the \<open>d\<close> decoded coordinates
  over the first \<open>d\<close> elements of the backing array and returns the slice cut to
  length \<open>d\<close>.
\<close>

theorem CoordsSlice_length_check:
  assumes "Dims a \<le> 12" "len buf \<le> cap buf"
  shows "((\<exists>e. CoordsSlice a buf = Inl e) \<longleftrightarrow> len buf < Dims a) \<and>
         (len buf < Dims a \<longrightarrow>
            CoordsSlice a buf = Inl (Panic (msg_buf (Dims a) (len buf)))) \<and>
         (Dims a \<le> len buf \<longrightarrow>
            (\<exists>c r. Coords a = Inr (c, Dims a) \<and> CoordsSlice a buf = Inr r \<and>
               len r = Dims a \<and> elems r = take (Dims a) c \<and>
               backing r = take (Dims a) c @ drop (Dims a) (backing buf)))"
proof -
  from Coords_ok[OF assms(1)] obtain c where c: "Coords a = Inr (c, Dims a)" "length c = 12"
    by blast
  show ?thesis
  proof (cases "len buf < Dims a")
    case True
    with c(1) have "CoordsSlice a buf = Inl (Panic (msg_buf (Dims a) (len buf)))"
      by (simp add: CoordsSlice_def)
    with True show ?thesis by simp
  next
    case False
    then have le: "Dims a \<le> length (backing buf)" using assms(2) by (simp add: cap_def)
    have dc: "Dims a \<le> length c" using assms(1) c(2) by simp
    from CoordsSlice_copy[OF dc le] obtain r where
      r: "for_range (Dims a) (\<lambda>i b. bind_res (array_get c i) (\<lambda>x. slice_set b i x))
            (buf\<lparr>len := Dims a\<rparr>) = Inr r"
         "len r = Dims a" "backing r = take (Dims a) c @ drop (Dims a) (backing buf)"
      by blast
    from False le c(1) r(1) have cs: "CoordsSlice a buf = Inr r"
      by (simp add: CoordsSlice_def reslice_to_def cap_def)
    have "elems r = take (Dims a) c" using r(2,3) dc by (simp add: elems_def)
    with False cs c(1) r(2,3) show ?thesis by auto
  qed
qed

theorem CoordsSlice_length_check_witness:
  "CoordsSlice (Addr 851 0 0 0) \<lparr>backing = [7, 7, 7, 7, 7], len = 2\<rparr> =
     Inl (Panic ''lattice: buf too small: need 3, got 2'') \<and>
   (\<exists>r. CoordsSlice (Addr 851 0 0 0) \<lparr>backing = [7, 7, 7, 7, 7], len = 4\<rparr> = Inr r \<and>
      len r = 3 \<and> backing r = [1, 2, 3, 7, 7])"
proof -
  have d: "Dims (Addr 851 0 0 0) \<le> 12" by code_simp
  have d3: "Dims (Addr 851 0 0 0) = 3" by code_simp
  have c: "Coords (Addr 851 0 0 0) = Inr ([1, 2, 3, 0, 0, 0, 0, 0, 0, 0, 0, 0], 3)" by code_simp
  have m: "msg_buf 3 2 = ''lattice: buf too small: need 3, got 2''"
    by (simp add: msg_buf_def sprintf_d_def digits.simps digit_def)
  have w1: "len \<lparr>backing = [7, 7, 7, 7, 7 :: int], len = 2\<rparr> \<le> cap \<lparr>backing = [7, 7, 7, 7, 7], len = 2\<rparr>"
    and w2: "len \<lparr>backing = [7, 7, 7, 7, 7 :: int], len = 4\<rparr> \<le> cap \<lparr>backing = [7, 7, 7, 7, 7], len = 4\<rparr>"
    by (simp_all add: cap_def)
  from CoordsSlice_length_check[OF d w1] d3 m
  have 1: "CoordsSlice (Addr 851 0 0 0) \<lparr>backing = [7, 7, 7, 7, 7], len = 2\<rparr> =
     Inl (Panic ''lattice: buf too small: need 3, got 2'')" by simp
  from CoordsSlice_length_check[OF d w2] d3 c
  have 2: "\<exists>r. CoordsSlice (Addr 851 0 0 0) \<lparr>backing = [7, 7, 7, 7, 7], len = 4\<rparr> = Inr r \<and>
      len r = 3 \<and> backing r = [1, 2, 3, 7, 7]" by (auto simp: numeral_3_eq_3)
  from 1 2 show ?thesis by blast
qed

text \<open>
  A slice of length 0 and capacity 12, as \<^verbatim>\<open>make([]int, 0, 12)\<close> gives, has room for the
  3 coordinates of \<^verbatim>\<open>New(1, 2, 3)\<close>, and \<^verbatim>\<open>CoordsSlice\<close> panics on it.
\<close>

theorem CoordsSlice_capacity_counterexample:
  "New [1, 2, 3] = Inr (Addr 851 0 0 0) \<and> Dims (Addr 851 0 0 0) = 3 \<and>
   cap \<lparr>backing = replicate 12 0, len = 0\<rparr> = 12 \<and>
   CoordsSlice (Addr 851 0 0 0) \<lparr>backing = replicate 12 0, len = 0\<rparr> =
     Inl (Panic ''lattice: buf too small: need 3, got 0'')"
proof -
  have "New [1, 2, 3] = Inr (Addr 851 0 0 0)" by code_simp
  moreover have d3: "Dims (Addr 851 0 0 0) = 3" by code_simp
  moreover have "cap \<lparr>backing = replicate 12 0, len = 0\<rparr> = 12" by (simp add: cap_def)
  moreover have "Coords (Addr 851 0 0 0) = Inr ([1, 2, 3, 0, 0, 0, 0, 0, 0, 0, 0, 0], 3)"
    by code_simp
  then have "CoordsSlice (Addr 851 0 0 0) \<lparr>backing = replicate 12 0, len = 0\<rparr> =
     Inl (Panic ''lattice: buf too small: need 3, got 0'')"
    by (simp add: CoordsSlice_def msg_buf_example)
  ultimately show ?thesis by blast
qed

section \<open>Replacing one coordinate\<close>

lemma array_set_ok [simp]: "i < length xs \<Longrightarrow> array_set xs i v = Inr (xs[i := v])"
  by (simp add: array_set_def)

lemma With_copy:
  fixes c :: "int list"
  assumes "d \<le> length c"
  shows "for_range d (\<lambda>i coords. bind_res (array_get c i) (\<lambda>x. array_set coords i x))
           (replicate d 0) = Inr (take d c)"
proof -
  let ?body = "\<lambda>i coords. bind_res (array_get c i) (\<lambda>x. array_set coords i x)"
  let ?P = "\<lambda>D s. length s = d \<and> (\<forall>j<d. s ! j = (if j \<in> D then c ! j else 0))"
  have "\<exists>r. for_range d ?body (replicate d 0) = Inr r \<and> ?P {..<d} r"
  proof (rule for_range_rule[where P = ?P])
    show "?P {} (replicate d 0)" by simp
  next
    fix D i and s :: "int list" assume P: "?P D s" and i: "i < d"
    from i assms P have "?body i s = Inr (s[i := c ! i])"
      by simp
    moreover have "?P (insert i D) (s[i := c ! i])"
      using P i by (auto simp: nth_list_update)
    ultimately show "\<exists>s'. ?body i s = Inr s' \<and> ?P (insert i D) s'" by blast
  qed
  then obtain r where r: "for_range d ?body (replicate d 0) = Inr r" "?P {..<d} r" by blast
  have "r = take d c"
    by (rule nth_equalityI) (use r(2) assms in auto)
  with r(1) show ?thesis by simp
qed

lemma With_New:
  assumes "New coords = Inr a"
  shows "With a i v =
           (if i < 0 \<or> i \<ge> int (length coords)
            then Inl (Panic (msg_dim_index i (length coords)))
            else New (coords[nat i := v]))"
proof -
  from New_decoded[OF assms] obtain buf where
    b: "Coords a = Inr (buf, length coords)" "length buf = 12"
       "take (length coords) buf = coords" by blast
  from New_Inr_valid[OF assms] have "length coords \<le> length buf" using b(2) by simp
  from With_copy[OF this] b(3)
  have cp: "for_range (length coords)
              (\<lambda>i cs. bind_res (array_get buf i) (\<lambda>x. array_set cs i x))
              (replicate (length coords) 0) = Inr coords" by simp
  have "nat i < length coords" if "\<not> (i < 0 \<or> i \<ge> int (length coords))"
    using that by (simp add: nat_less_iff)
  then show ?thesis
    using b(1) cp by (simp add: With_def)
qed

lemma At_New:
  assumes "New coords = Inr a"
  shows "At a i =
           (if i < 0 \<or> i \<ge> int (length coords)
            then Inl (Panic (msg_dim_index i (length coords)))
            else Inr (coords ! nat i))"
proof -
  from New_Inr_valid[OF assms] have v: "length coords \<le> 12"
    "\<forall>v\<in>set coords. 0 \<le> v \<and> v \<le> 1048575" by simp_all
  from roundtrip[OF v] assms obtain buf where
    b: "Coords a = Inr (buf, length coords)" "length buf = 12"
       "\<forall>i<length coords. buf ! i = coords ! i" by auto
  show ?thesis using b v(1) by (auto simp: At_def)
qed

lemma msg_coord_neq_dim_index: "msg_coord j x m \<noteq> msg_dim_index i d"
  by (simp add: msg_coord_def msg_dim_index_def)

lemma New_result_shape:
  assumes "length cs \<le> 12"
  shows "(\<exists>a. New cs = Inr a) \<or> (\<exists>j x. New cs = Inl (Panic (msg_coord j x 1048575)))"
proof (cases "check_coords 0 cs")
  case None
  then have "\<forall>v\<in>set cs. 0 \<le> v \<and> v \<le> 1048575" by (simp add: check_coords_None)
  from New_ok[OF assms this] show ?thesis by blast
next
  case (Some e)
  with assms have "New cs = Inl e" by (subst New_cases) simp
  with check_coords_msg[OF Some] show ?thesis by blast
qed

text \<open>
  Claim C7. For an address \<open>a\<close> built by \<^verbatim>\<open>New\<close> from \<open>coords\<close>, \<^verbatim>\<open>a.With(i, v)\<close>
  panics with the dimension-index message exactly when \<open>i < 0\<close> or \<open>i >= a.Dims()\<close>.
  For an index in range and a value in 0..1048575 it returns an address of the same
  dimension count whose coordinate \<open>i\<close> is \<open>v\<close> and whose other coordinates are those of
  \<open>a\<close>. The receiver is passed by value: \<^verbatim>\<open>a.At(j)\<close> is the coordinate \<open>j\<close> given to
  \<^verbatim>\<open>New\<close>, whatever \<^verbatim>\<open>With\<close> was called with.
\<close>

theorem With_replaces_one:
  assumes "New coords = Inr a"
  shows "(With a i v = Inl (Panic (msg_dim_index i (Dims a))) \<longleftrightarrow> i < 0 \<or> i \<ge> int (Dims a)) \<and>
         (0 \<le> i \<and> i < int (Dims a) \<and> 0 \<le> v \<and> v \<le> 1048575 \<longrightarrow>
            (\<exists>a' buf. With a i v = Inr a' \<and> Dims a' = Dims a \<and>
               Coords a' = Inr (buf, Dims a) \<and> buf ! nat i = v \<and>
               (\<forall>j<Dims a. j \<noteq> nat i \<longrightarrow> buf ! j = coords ! j))) \<and>
         (\<forall>j<Dims a. At a (int j) = Inr (coords ! j))"
proof -
  note d = New_Dims(1)[OF assms]
  from New_Inr_valid[OF assms] have v: "length coords \<le> 12"
    "\<forall>v\<in>set coords. 0 \<le> v \<and> v \<le> 1048575" by simp_all
  have 1: "With a i v = Inl (Panic (msg_dim_index i (Dims a))) \<longleftrightarrow> i < 0 \<or> i \<ge> int (Dims a)"
  proof (cases "i < 0 \<or> i \<ge> int (length coords)")
    case True
    then show ?thesis by (simp add: With_New[OF assms] d)
  next
    case False
    have "length (coords[nat i := v]) \<le> 12" using v(1) by simp
    from New_result_shape[OF this] have "New (coords[nat i := v]) \<noteq> Inl (Panic (msg_dim_index i (Dims a)))"
      using msg_coord_neq_dim_index by auto
    with False show ?thesis by (simp add: With_New[OF assms] d)
  qed
  have 2: "\<exists>a' buf. With a i v = Inr a' \<and> Dims a' = Dims a \<and>
               Coords a' = Inr (buf, Dims a) \<and> buf ! nat i = v \<and>
               (\<forall>j<Dims a. j \<noteq> nat i \<longrightarrow> buf ! j = coords ! j)"
    if r: "0 \<le> i \<and> i < int (Dims a) \<and> 0 \<le> v \<and> v \<le> 1048575"
  proof -
    let ?cs = "coords[nat i := v]"
    have len: "length ?cs \<le> 12" using v(1) by simp
    have ok: "\<forall>x\<in>set ?cs. 0 \<le> x \<and> x \<le> 1048575"
      using v(2) r by (auto dest!: set_update_subset_insert[THEN subsetD])
    from roundtrip[OF len ok] obtain a' buf where
      a': "New ?cs = Inr a'" "Dims a' = length ?cs" "Coords a' = Inr (buf, length ?cs)"
          "\<forall>j<length ?cs. buf ! j = ?cs ! j" by blast
    from r d have w: "With a i v = Inr a'" by (simp add: With_New[OF assms] a'(1))
    from r d have i: "nat i < length coords" by (simp add: nat_less_iff)
    from a'(4) i have "buf ! nat i = v" by simp
    moreover from a'(4) have "\<forall>j<Dims a. j \<noteq> nat i \<longrightarrow> buf ! j = coords ! j"
      by (simp add: d)
    ultimately show ?thesis using w a'(2,3) d by simp
  qed
  have 3: "\<forall>j<Dims a. At a (int j) = Inr (coords ! j)"
    by (simp add: At_New[OF assms] d)
  from 1 2 3 show ?thesis by blast
qed

theorem With_replaces_one_witness:
  "New [1, 2, 3] = Inr (Addr 851 0 0 0) \<and>
   (\<exists>a' buf. With (Addr 851 0 0 0) 1 99 = Inr a' \<and> Dims a' = 3 \<and>
      Coords a' = Inr (buf, 3) \<and> buf ! 0 = 1 \<and> buf ! 1 = 99 \<and> buf ! 2 = 3) \<and>
   At (Addr 851 0 0 0) 1 = Inr 2 \<and>
   With (Addr 851 0 0 0) 3 99 = Inl (Panic ''lattice: dimension index 3 out of range [0:3]'')"
proof -
  have n: "New [1, 2, 3] = Inr (Addr 851 0 0 0)" by code_simp
  have d3: "Dims (Addr 851 0 0 0) = 3" by code_simp
  have m: "msg_dim_index 3 3 = ''lattice: dimension index 3 out of range [0:3]''"
    by (simp add: msg_dim_index_def sprintf_d_def digits.simps digit_def)
  note t = With_replaces_one[OF n]
  from t[of 3 99, THEN conjunct1] d3 m
  have 1: "With (Addr 851 0 0 0) 3 99 = Inl (Panic ''lattice: dimension index 3 out of range [0:3]'')"
    by simp
  from t[of 1 99, THEN conjunct2, THEN conjunct1] d3
  obtain a' buf where r: "With (Addr 851 0 0 0) 1 99 = Inr a'" "Dims a' = 3"
    "Coords a' = Inr (buf, 3)" "buf ! nat 1 = 99" "\<forall>j<3. j \<noteq> nat 1 \<longrightarrow> buf ! j = [1, 2, 3] ! j"
    by auto
  from r(5) have "buf ! 0 = 1" "buf ! 2 = 3" by simp_all
  with r have 2: "\<exists>a' buf. With (Addr 851 0 0 0) 1 99 = Inr a' \<and> Dims a' = 3 \<and>
      Coords a' = Inr (buf, 3) \<and> buf ! 0 = 1 \<and> buf ! 1 = 99 \<and> buf ! 2 = 3" by auto
  from t[of 1 99, THEN conjunct2, THEN conjunct2, rule_format, of 1] d3
  have 3: "At (Addr 851 0 0 0) 1 = Inr 2" by simp
  from n 1 2 3 show ?thesis by blast
qed

section \<open>Index bounds of the decoder\<close>

lemma for_each_Inr:
  assumes "for_each xs body s = Inr s'" "I s"
    and "\<And>i t t'. I t \<Longrightarrow> i \<in> set xs \<Longrightarrow> body i t = Inr t' \<Longrightarrow> I t'"
  shows "I s' \<and> (\<forall>i\<in>set xs. \<exists>t t'. I t \<and> body i t = Inr t')"
  using assms
proof (induction xs arbitrary: s)
  case Nil
  then show ?case by simp
next
  case (Cons x xs)
  from Cons.prems(1) obtain s1 where s1: "body x s = Inr s1" "for_each xs body s1 = Inr s'"
    by (auto split: sum.splits)
  have I1: "I s1" using Cons.prems(3)[OF Cons.prems(2) _ s1(1)] by simp
  have "I s' \<and> (\<forall>i\<in>set xs. \<exists>t t'. I t \<and> body i t = Inr t')"
    by (rule Cons.IH[OF s1(2) I1]) (use Cons.prems(3) in auto)
  with s1(1) Cons.prems(2) show ?case by auto
qed

lemma for_each_Inl:
  assumes "for_each xs body s = Inl e" "I s"
    and "\<And>i t t'. I t \<Longrightarrow> i \<in> set xs \<Longrightarrow> body i t = Inr t' \<Longrightarrow> I t'"
  shows "\<exists>i\<in>set xs. \<exists>t. I t \<and> body i t = Inl e"
  using assms
proof (induction xs arbitrary: s)
  case Nil
  then show ?case by simp
next
  case (Cons x xs)
  show ?case
  proof (cases "body x s")
    case (Inl e')
    with Cons.prems(1) have "e' = e" by simp
    with Inl Cons.prems(2) show ?thesis by auto
  next
    case (Inr s1)
    with Cons.prems(1) have f: "for_each xs body s1 = Inl e" by simp
    have I1: "I s1" using Cons.prems(3)[OF Cons.prems(2) _ Inr] by simp
    have "\<exists>i\<in>set xs. \<exists>t. I t \<and> body i t = Inl e"
      by (rule Cons.IH[OF f I1]) (use Cons.prems(3) in auto)
    then show ?thesis by auto
  qed
qed

lemma word_get_Inr: "word_get a k = Inr w \<Longrightarrow> k < 4"
  by (auto simp: word_get_def split: if_splits)

lemma word_get_Inl: "word_get a k = Inl e \<Longrightarrow> 4 \<le> k \<and> e = IndexOutOfRange k 4"
  by (auto simp: word_get_def split: if_splits)

lemma Coords_step_Inr:
  assumes "Coords_step a dims p i s = Inr s'"
  shows "length s' = length s \<and> encodedBitPos p dims i < 256"
proof -
  from assms obtain w where w: "word_get a (encodedBitPos p dims i div 64) = Inr w"
    by (auto simp: Coords_step_def Let_def bind_res_def split: sum.splits)
  from word_get_Inr[OF this] have "encodedBitPos p dims i < 256" by simp
  moreover from assms w have "length s' = length s"
    by (auto simp: Coords_step_def Let_def bind_res_def array_get_def array_set_def
        split: sum.splits if_splits)
  ultimately show ?thesis by simp
qed

lemma Coords_step_Inl:
  assumes "Coords_step a dims p i s = Inl e" "length s = 12"
  shows "(256 \<le> encodedBitPos p dims i \<and> e = IndexOutOfRange (encodedBitPos p dims i div 64) 4) \<or>
         (12 \<le> i \<and> e = IndexOutOfRange i 12)"
proof (cases "word_get a (encodedBitPos p dims i div 64)")
  case (Inl e')
  with assms(1) have "e' = e" by (simp add: Coords_step_def Let_def)
  with word_get_Inl[OF Inl] have k: "4 \<le> encodedBitPos p dims i div 64"
    and e: "e = IndexOutOfRange (encodedBitPos p dims i div 64) 4" by simp_all
  from k have "256 \<le> encodedBitPos p dims i" by (simp add: less_eq_div_iff_mult_less_eq)
  with e show ?thesis by simp
next
  case (Inr w)
  with assms show ?thesis
    by (auto simp: Coords_step_def Let_def array_get_def array_set_def split: if_splits)
qed

lemma Coords_inner_length:
  assumes "for_range dims (Coords_step a dims p) s = Inr s'" "length s = 12"
  shows "length s' = 12"
proof -
  have "length s' = 12 \<and>
        (\<forall>i\<in>set [0..<dims]. \<exists>t t'. length t = 12 \<and> Coords_step a dims p i t = Inr t')"
    by (rule for_each_Inr[where I = "\<lambda>t. length t = 12", OF assms(1)[unfolded for_range_def] assms(2)])
      (auto dest: Coords_step_Inr)
  then show ?thesis by simp
qed

lemma Coords_never_returns:
  assumes "12 < Dims a"
  shows "Coords a \<noteq> Inr r"
proof
  assume "Coords a = Inr r"
  then obtain s' where
    outer: "for_each [0..<20] (\<lambda>p. for_range (Dims a) (Coords_step a (Dims a) p)) (replicate 12 0) = Inr s'"
    by (auto simp: Coords_def Let_def bind_res_def for_range_def BitsPerCoord_def MaxDimensions_def
        split: sum.splits)
  have "length s' = 12 \<and>
        (\<forall>p\<in>set [0..<20]. \<exists>t t'. length t = 12 \<and>
            for_range (Dims a) (Coords_step a (Dims a) p) t = Inr t')"
    by (rule for_each_Inr[where I = "\<lambda>t. length t = 12", OF outer])
      (auto dest: Coords_inner_length)
  moreover have "(19::nat) \<in> set [0..<20]" by simp
  ultimately have "\<exists>t t'. length t = 12 \<and> for_range (Dims a) (Coords_step a (Dims a) 19) t = Inr t'"
    by blast
  then obtain t t' where t: "length t = 12"
      "for_each [0..<Dims a] (Coords_step a (Dims a) 19) t = Inr t'"
    by (auto simp: for_range_def)
  have "length t' = 12 \<and>
        (\<forall>i\<in>set [0..<Dims a]. \<exists>u u'. length u = 12 \<and> Coords_step a (Dims a) 19 i u = Inr u')"
    by (rule for_each_Inr[where I = "\<lambda>t. length t = 12", OF t(2) t(1)])
      (auto dest: Coords_step_Inr)
  moreover have "5 \<in> set [0..<Dims a]" using assms by simp
  ultimately obtain u u' where "Coords_step a (Dims a) 19 5 u = Inr u'" by blast
  from Coords_step_Inr[OF this] have "encodedBitPos 19 (Dims a) 5 < 256" by simp
  with assms show False by (simp add: encodedBitPos_def)
qed

lemma Coords_panic_shape:
  assumes "Coords a = Inl e"
  shows "e = IndexOutOfRange 4 4 \<or> (\<exists>i. 12 \<le> i \<and> i < Dims a \<and> e = IndexOutOfRange i 12)"
proof -
  from assms have
    outer: "for_each [0..<20] (\<lambda>p. for_range (Dims a) (Coords_step a (Dims a) p)) (replicate 12 0) = Inl e"
    by (auto simp: Coords_def Let_def bind_res_def for_range_def BitsPerCoord_def MaxDimensions_def
        split: sum.splits)
  have "\<exists>p\<in>set [0..<20]. \<exists>t. length t = 12 \<and> for_range (Dims a) (Coords_step a (Dims a) p) t = Inl e"
    by (rule for_each_Inl[where I = "\<lambda>t. length t = 12", OF outer])
      (auto dest: Coords_inner_length)
  then obtain p t where p: "p < 20" and t: "length t = 12"
      "for_each [0..<Dims a] (Coords_step a (Dims a) p) t = Inl e"
    by (auto simp: for_range_def)
  have "\<exists>i\<in>set [0..<Dims a]. \<exists>u. length u = 12 \<and> Coords_step a (Dims a) p i u = Inl e"
    by (rule for_each_Inl[where I = "\<lambda>t. length t = 12", OF t(2) t(1)])
      (auto dest: Coords_step_Inr)
  then obtain i u where i: "i < Dims a" and u: "length u = 12"
      "Coords_step a (Dims a) p i u = Inl e" by auto
  from Coords_step_Inl[OF u(2) u(1)] show ?thesis
  proof
    assume w: "256 \<le> encodedBitPos p (Dims a) i \<and>
               e = IndexOutOfRange (encodedBitPos p (Dims a) i div 64) 4"
    have "p * Dims a \<le> 19 * 15"
      by (rule mult_le_mono) (use p Dims_le_15[of a] in auto)
    with i Dims_le_15[of a] have "encodedBitPos p (Dims a) i < 320"
      by (simp add: encodedBitPos_def)
    with w have "encodedBitPos p (Dims a) i div 64 = 4" by (intro div_nat_eqI) simp_all
    with w show ?thesis by simp
  next
    assume "12 \<le> i \<and> e = IndexOutOfRange i 12"
    with i show ?thesis by blast
  qed
qed

lemma New_no_index_panic: "New coords \<noteq> Inl (IndexOutOfRange k n)"
proof (cases "length coords \<le> 12")
  case True
  from New_result_shape[OF this] show ?thesis by auto
next
  case False
  then have "New coords = Inl (Panic ''lattice: max 12 dimensions supported'')"
    by (subst New_cases) simp
  then show ?thesis by simp
qed

text \<open>
  Claim C9, as the code has it. \<^verbatim>\<open>Coords\<close> returns if and only if the header holds a
  dimension count of at most 12. For such a count, and in \<^verbatim>\<open>New\<close>, every bit offset is
  at most \<open>4 + 12 * 20 - 1 = 243\<close> and every word index at most 3, and \<^verbatim>\<open>New\<close> never
  panics on an index. For a header of 13, 14 or 15, \<^verbatim>\<open>Coords\<close> always panics on an
  index: on word index 4 of the four storage words, or before that on an index from 12 on
  of the 12-entry output buffer, when a set bit of the address selects such an entry.
\<close>

theorem Coords_index_bounds:
  "((\<exists>r. Coords a = Inr r) \<longleftrightarrow> Dims a \<le> 12) \<and>
   (Dims a \<le> 12 \<longrightarrow>
      (\<forall>bitPos<20. \<forall>dimIdx<Dims a.
          encodedBitPos bitPos (Dims a) dimIdx \<le> 243 \<and>
          encodedBitPos bitPos (Dims a) dimIdx div 64 \<le> 3)) \<and>
   (12 < Dims a \<longrightarrow>
      Coords a = Inl (IndexOutOfRange 4 4) \<or>
      (\<exists>i. 12 \<le> i \<and> i < Dims a \<and> Coords a = Inl (IndexOutOfRange i 12))) \<and>
   (length coords \<le> 12 \<longrightarrow>
      (\<forall>bitPos<20. \<forall>dimIdx<length coords.
          encodedBitPos bitPos (length coords) dimIdx \<le> 243 \<and>
          encodedBitPos bitPos (length coords) dimIdx div 64 \<le> 3)) \<and>
   New coords \<noteq> Inl (IndexOutOfRange k n)"
proof -
  have bound: "encodedBitPos p d i \<le> 243 \<and> encodedBitPos p d i div 64 \<le> 3"
    if "d \<le> 12" "p < 20" "i < d" for p d i
  proof -
    from encodedBitPos_bound[OF that] have b: "encodedBitPos p d i \<le> 243" .
    then have "encodedBitPos p d i div 64 \<le> 243 div 64" by (rule div_le_mono)
    with b show ?thesis by simp
  qed
  have 1: "(\<exists>r. Coords a = Inr r) \<longleftrightarrow> Dims a \<le> 12"
  proof
    assume "\<exists>r. Coords a = Inr r"
    then obtain r where r: "Coords a = Inr r" by blast
    show "Dims a \<le> 12"
    proof (rule ccontr)
      assume "\<not> Dims a \<le> 12"
      then have "12 < Dims a" by simp
      from Coords_never_returns[OF this, of r] r show False by simp
    qed
  next
    assume "Dims a \<le> 12"
    from Coords_ok[OF this] show "\<exists>r. Coords a = Inr r" by blast
  qed
  have 3: "Coords a = Inl (IndexOutOfRange 4 4) \<or>
      (\<exists>i. 12 \<le> i \<and> i < Dims a \<and> Coords a = Inl (IndexOutOfRange i 12))" if "12 < Dims a"
  proof (cases "Coords a")
    case (Inl e)
    from Coords_panic_shape[OF Inl] Inl show ?thesis by auto
  next
    case (Inr r)
    with Coords_never_returns[OF that, of r] show ?thesis by simp
  qed
  from 1 3 bound New_no_index_panic show ?thesis by blast
qed

theorem Coords_index_bounds_witness:
  "Dims (Addr 851 0 0 0) \<le> 12 \<and> (\<exists>r. Coords (Addr 851 0 0 0) = Inr r) \<and>
   encodedBitPos 19 (Dims (Addr 851 0 0 0)) 2 \<le> 243 \<and>
   12 < Dims (Addr 13 0 0 0) \<and> Coords (Addr 13 0 0 0) = Inl (IndexOutOfRange 4 4) \<and>
   12 < Dims (Addr 14 0 0 0) \<and> Coords (Addr 14 0 0 0) = Inl (IndexOutOfRange 4 4) \<and>
   12 < Dims (Addr 15 0 0 0) \<and> Coords (Addr 15 0 0 0) = Inl (IndexOutOfRange 4 4)"
proof -
  have d: "Dims (Addr 851 0 0 0) \<le> 12" by code_simp
  have d3: "Dims (Addr 851 0 0 0) = 3" by code_simp
  note t = Coords_index_bounds[of "Addr 851 0 0 0"]
  from t[THEN conjunct1] d have 1: "\<exists>r. Coords (Addr 851 0 0 0) = Inr r" by simp
  from t[THEN conjunct2, THEN conjunct1, rule_format, OF d, of 19 2] d3
  have 2: "encodedBitPos 19 (Dims (Addr 851 0 0 0)) 2 \<le> 243" by simp
  have 3: "12 < Dims (Addr 13 0 0 0)" "12 < Dims (Addr 14 0 0 0)" "12 < Dims (Addr 15 0 0 0)"
    by code_simp+
  have 4: "Coords (Addr 13 0 0 0) = Inl (IndexOutOfRange 4 4)"
    "Coords (Addr 14 0 0 0) = Inl (IndexOutOfRange 4 4)"
    "Coords (Addr 15 0 0 0) = Inl (IndexOutOfRange 4 4)"
    by code_simp+
  from d 1 2 3 4 show ?thesis by blast
qed

text \<open>
  Header 13 and bit 16 set: at bit position 0, dimension 12, the bit is read from word 0
  and the write to entry 12 of the output buffer panics. No word index of 4 is computed.
\<close>

theorem Coords_header_13_counterexample:
  "Dims (Addr 65549 0 0 0) = 13 \<and>
   Coords (Addr 65549 0 0 0) = Inl (IndexOutOfRange 12 12)"
proof -
  have "Dims (Addr 65549 0 0 0) = 13" by code_simp
  moreover have "Coords (Addr 65549 0 0 0) = Inl (IndexOutOfRange 12 12)" by code_simp
  ultimately show ?thesis by blast
qed

section \<open>The zero value\<close>

text \<open>
  Claim C10, as the code has it. The zero value of \<^verbatim>\<open>Addr\<close>, four zero words, is the
  address that \<^verbatim>\<open>New()\<close> returns for no coordinates: \<^verbatim>\<open>Dims()\<close> is 0,
  \<^verbatim>\<open>Coords()\<close> is a buffer of zeros with count 0 and \<^verbatim>\<open>IsZero()\<close> is true.
  \<^verbatim>\<open>Contains\<close> returns true on every \<^verbatim>\<open>Addr\<close> whose header holds a dimension count
  of at most 12, which every result of \<^verbatim>\<open>New\<close> does. On four words whose header holds
  13, 14 or 15 it panics, with the panic of decoding them.
\<close>

theorem zero_value_is_empty_address:
  "New [] = Inr (Addr 0 0 0 0) \<and> Dims (Addr 0 0 0 0) = 0 \<and>
   Coords (Addr 0 0 0 0) = Inr (replicate 12 0, 0) \<and>
   IsZero (Addr 0 0 0 0) = Inr True \<and>
   (\<forall>b. Dims b \<le> 12 \<longrightarrow> Contains (Addr 0 0 0 0) b = Inr True) \<and>
   (\<forall>b. 12 < Dims b \<longrightarrow> (\<exists>e. Contains (Addr 0 0 0 0) b = Inl e \<and> Coords b = Inl e))"
proof -
  have n: "New [] = Inr (Addr 0 0 0 0)" by code_simp
  have d: "Dims (Addr 0 0 0 0) = 0" by code_simp
  have c: "Coords (Addr 0 0 0 0) = Inr (replicate 12 0, 0)" by code_simp
  have z: "IsZero (Addr 0 0 0 0) = Inr True" by code_simp
  have ok: "Contains (Addr 0 0 0 0) b = Inr True" if "Dims b \<le> 12" for b
    using Contains_decoded[of "Addr 0 0 0 0" b] that d by auto
  have bad: "\<exists>e. Contains (Addr 0 0 0 0) b = Inl e \<and> Coords b = Inl e" if "12 < Dims b" for b
  proof (cases "Coords b")
    case (Inl e)
    with c d have "Contains (Addr 0 0 0 0) b = Inl e" by (simp add: Contains_def Let_def)
    with Inl show ?thesis by blast
  next
    case (Inr r)
    with Coords_never_returns[OF that, of r] show ?thesis by simp
  qed
  from n d c z ok bad show ?thesis by blast
qed

theorem zero_value_is_empty_address_witness:
  "Dims (Addr 851 0 0 0) \<le> 12 \<and> Contains (Addr 0 0 0 0) (Addr 851 0 0 0) = Inr True \<and>
   Dims (Addr 0 0 0 0) \<le> 12 \<and> Contains (Addr 0 0 0 0) (Addr 0 0 0 0) = Inr True \<and>
   12 < Dims (Addr 14 0 0 0) \<and>
   (\<exists>e. Contains (Addr 0 0 0 0) (Addr 14 0 0 0) = Inl e \<and> Coords (Addr 14 0 0 0) = Inl e)"
proof -
  have d: "Dims (Addr 851 0 0 0) \<le> 12" "Dims (Addr 0 0 0 0) \<le> 12" by code_simp+
  have d14: "12 < Dims (Addr 14 0 0 0)" by code_simp
  from zero_value_is_empty_address d d14 show ?thesis by blast
qed

text \<open>
  \<^verbatim>\<open>Addr{}.Contains(Addr{13, 0, 0, 0})\<close>: 0 is not above 13, so both addresses are
  decoded, and decoding the argument panics on word index 4.
\<close>

theorem zero_value_Contains_counterexample:
  "Dims (Addr 13 0 0 0) = 13 \<and>
   Contains (Addr 0 0 0 0) (Addr 13 0 0 0) = Inl (IndexOutOfRange 4 4)"
proof -
  have "Dims (Addr 13 0 0 0) = 13" by code_simp
  moreover have "Contains (Addr 0 0 0 0) (Addr 13 0 0 0) = Inl (IndexOutOfRange 4 4)" by code_simp
  ultimately show ?thesis by blast
qed

end
